theory Spec2Isabelle
  imports Complex_Main
begin

section \<open>Python values used by the real-time notebook\<close>

text \<open>
  The development follows \<^verbatim>\<open>11-real-time.ipynb\<close>: the two file watchers
  \<^verbatim>\<open>tr_watcher_simple\<close> and \<^verbatim>\<open>tr_watcher\<close>, the controller \<^verbatim>\<open>realtime\<close> and the
  cell that calls it. Exceptions are values of type \<open>error\<close>; a call that never returns
  (a \<^verbatim>\<open>Queue.get()\<close> on a queue that stays empty) is the outcome \<open>Blocks\<close>.
\<close>

datatype error =
    UnboundLocalError string
  | IndexError
  | FileNotFoundError
  | LoadError
  | ValueError

datatype 'a outcome = Returns 'a | Raises error | Blocks

text \<open>
  Python slicing \<^verbatim>\<open>xs[a:b]\<close>: a negative bound counts from the end, and both bounds are
  clamped to the length. Python indexing \<^verbatim>\<open>xs[i]\<close>: a negative index counts from the
  end, and an index out of range raises.
\<close>

definition py_bound :: "nat \<Rightarrow> int \<Rightarrow> nat" where
  "py_bound n i = (if i < 0 then nat (max 0 (int n + i)) else min n (nat i))"

definition py_slice :: "'a list \<Rightarrow> int \<Rightarrow> int \<Rightarrow> 'a list" where
  "py_slice xs a b =
     (let lo = py_bound (length xs) a; hi = py_bound (length xs) b
      in take (hi - lo) (drop lo xs))"

definition py_index :: "'a list \<Rightarrow> int \<Rightarrow> error + 'a" where
  "py_index xs i =
     (if 0 \<le> i \<and> i < int (length xs) then Inr (xs ! nat i)
      else if i < 0 \<and> - int (length xs) \<le> i then Inr (xs ! nat (int (length xs) + i))
      else Inl IndexError)"

subsection \<open>File names\<close>

text \<open>
  \<^verbatim>\<open>file_pattern = 'rt_{0:0>3}.npy'\<close>, formatted with the index: its decimal digits,
  right-aligned in a field of width 3 filled with zeros.
\<close>

fun str_nat :: "nat \<Rightarrow> string" where
  "str_nat n =
     (if n < 10 then [''0123456789'' ! n]
      else str_nat (n div 10) @ [''0123456789'' ! (n mod 10)])"

declare str_nat.simps [simp del]

definition rjust :: "nat \<Rightarrow> char \<Rightarrow> string \<Rightarrow> string" where
  "rjust wd c s = replicate (wd - length s) c @ s"

definition file_pattern :: "nat \<Rightarrow> string" where
  "file_pattern idx = ''rt_'' @ rjust 3 (CHR ''0'') (str_nat idx) @ ''.npy''"

section \<open>The directory and the notification queue\<close>

text \<open>
  The data directory changes while the notebook runs, so it is a timeline: \<open>disk w t\<close>
  is its content at tick \<open>t\<close>. A file whose name exists is either still being written
  (\<open>Partial\<close>, which \<^verbatim>\<open>np.load\<close> cannot parse) or \<open>Complete\<close>. \<open>file_queue\<close> holds the
  creation events that \<^verbatim>\<open>file_notify_handler.on_created\<close> puts on the queue, in arrival
  order, each with the tick at which it arrives; \<^verbatim>\<open>get()\<close> waits for the next one.
  The clock moves only while a watcher sleeps or waits on the queue.
\<close>

datatype 'v npy_file = Partial | Complete 'v

record 'v world =
  clock :: nat
  disk :: "nat \<Rightarrow> string \<Rightarrow> 'v npy_file option"
  file_queue :: "(nat \<times> string) list"

definition path_exists :: "'v world \<Rightarrow> string \<Rightarrow> bool" where
  "path_exists w filename = (disk w (clock w) filename \<noteq> None)"

definition np_load :: "string \<Rightarrow> 'v world \<Rightarrow> 'v outcome" where
  "np_load filename w =
     (case disk w (clock w) filename of
        None \<Rightarrow> Raises FileNotFoundError
      | Some Partial \<Rightarrow> Raises LoadError
      | Some (Complete vol) \<Rightarrow> Returns vol)"

text \<open>
  \<^verbatim>\<open>tr_watcher_simple\<close>: poll for the name, sleeping \<open>sleep_time\<close> ticks between two
  checks, then load once. The loop has no bound, so the function is partial.
\<close>

partial_function (option) tr_watcher_simple ::
  "string \<Rightarrow> nat \<Rightarrow> 'v world \<Rightarrow> ('v outcome \<times> 'v world) option" where
  "tr_watcher_simple filename sleep_time w =
     (if \<not> path_exists w filename
      then tr_watcher_simple filename sleep_time (w\<lparr>clock := clock w + sleep_time\<rparr>)
      else Some (np_load filename w, w))"

text \<open>
  \<^verbatim>\<open>tr_watcher\<close>: when the name does not exist yet, take events off the queue until one
  names the file; every other event is dropped. Then load once.
\<close>

fun await_event :: "string \<Rightarrow> nat \<Rightarrow> (nat \<times> string) list \<Rightarrow> (nat \<times> (nat \<times> string) list) option" where
  "await_event filename t [] = None"
| "await_event filename t ((arrival, src_path) # q) =
     (if src_path = filename then Some (max t arrival, q)
      else await_event filename (max t arrival) q)"

definition tr_watcher :: "string \<Rightarrow> 'v world \<Rightarrow> 'v outcome \<times> 'v world" where
  "tr_watcher filename w =
     (if path_exists w filename then (np_load filename w, w)
      else
        (case await_event filename (clock w) (file_queue w) of
           None \<Rightarrow> (Blocks, w\<lparr>file_queue := []\<rparr>)
         | Some (t, q) \<Rightarrow>
             (let w' = w\<lparr>clock := t, file_queue := q\<rparr> in (np_load filename w', w'))))"

section \<open>The controller\<close>

text \<open>
  The classifier is pluggable: \<open>clf_obj\<close> is the training function (\<^verbatim>\<open>train_logistic\<close>,
  \<^verbatim>\<open>train_incremental\<close>), called with two arguments for the first fit and with the live
  classifier as third argument for an update; \<open>predict\<close> is the classifier's method. The
  body of \<^verbatim>\<open>preprocess_vol\<close> is left as an exercise in the notebook, so the controller
  takes it as a parameter. A prediction is a boolean (logistic regression on
  \<^verbatim>\<open>labels == 2\<close>) or a label.
\<close>

datatype prediction = PBool bool | PInt int

record ('v, 'k, 'f, 'm) config =
  input_dir :: string
  labels :: "int list"
  mask_arr :: 'k
  train_count :: int
  incremental_batch :: int
  preprocess_vol :: "'v \<Rightarrow> 'k \<Rightarrow> error + 'f"
  clf_obj :: "'f option list \<Rightarrow> int list \<Rightarrow> 'm option \<Rightarrow> error + 'm"
  predict :: "'m \<Rightarrow> 'f option \<Rightarrow> error + prediction"

definition data_dir :: "('v, 'k, 'f, 'm) config \<Rightarrow> string" where
  "data_dir c = input_dir c @ ''data/''"

definition tr_shift :: int where
  "tr_shift = 3"

text \<open>
  \<open>trace\<close> is a history of what the controller did, in order: a volume received for an
  index, a first fit (with its data, its labels and the classifier it returned), a
  prediction (with the classifier that made it), an update (with the classifier it was
  given and the one it returned). It is not a variable of the notebook; the other fields
  are: the rows of \<^verbatim>\<open>tr_data\<close> (\<open>None\<close> is a row still NaN), \<^verbatim>\<open>clf\<close>, \<^verbatim>\<open>num_correct\<close>
  and \<^verbatim>\<open>accuracy\<close> (\<open>None\<close> while unassigned), next to the directory and the observers
  (\<^verbatim>\<open>Observer()\<close> objects, by address). \<^verbatim>\<open>accuracy\<close> is the quotient of two
  integers, kept as a rational number.
\<close>

datatype ('v, 'f, 'm) event =
    Volume nat 'v
  | Fit nat "'f option list" "int list" 'm
  | Predict nat 'm int
  | Update nat "'f option list" "int list" 'm 'm

datatype observer = Unstarted | Running | Stopped

record ('v, 'f, 'm) state =
  world :: "'v world"
  observers :: "observer list"
  tr_data :: "'f option list"
  clf :: "'m option"
  num_correct :: nat
  accuracy :: "rat option"
  trace :: "('v, 'f, 'm) event list"

text \<open>
  \<^verbatim>\<open>if prediction.dtype=='bool': prediction = prediction + 1\<close>: \<^verbatim>\<open>False\<close> becomes
  label 1 and \<^verbatim>\<open>True\<close> label 2.
\<close>

definition as_label :: "prediction \<Rightarrow> int" where
  "as_label p = (case p of PBool b \<Rightarrow> (if b then 1 else 0) + 1 | PInt l \<Rightarrow> l)"

text \<open>The head of the loop body: wait for the volume, preprocess it, store the row.\<close>

definition receive ::
  "('v, 'k, 'f, 'm) config \<Rightarrow> nat \<Rightarrow> ('v, 'f, 'm) state \<Rightarrow> unit outcome \<times> ('v, 'f, 'm) state" where
  "receive c idx s =
     (let next_filename = data_dir c @ file_pattern idx in
      case tr_watcher next_filename (world s) of
        (Blocks, w) \<Rightarrow> (Blocks, s\<lparr>world := w\<rparr>)
      | (Raises e, w) \<Rightarrow> (Raises e, s\<lparr>world := w\<rparr>)
      | (Returns vol, w) \<Rightarrow>
          (let s1 = s\<lparr>world := w, trace := trace s @ [Volume idx vol]\<rparr> in
           case preprocess_vol c vol (mask_arr c) of
             Inl e \<Rightarrow> (Raises e, s1)
           | Inr row \<Rightarrow>
               if idx < length (tr_data s1)
               then (Returns (), s1\<lparr>tr_data := (tr_data s1)[idx := Some row]\<rparr>)
               else (Raises IndexError, s1)))"

text \<open>The branch \<^verbatim>\<open>elif idx == train_count\<close>.\<close>

definition train ::
  "('v, 'k, 'f, 'm) config \<Rightarrow> nat \<Rightarrow> ('v, 'f, 'm) state \<Rightarrow> unit outcome \<times> ('v, 'f, 'm) state" where
  "train c idx s =
     (let X = py_slice (tr_data s) tr_shift (train_count c);
          y = py_slice (labels c) 0 (train_count c - tr_shift)
      in case clf_obj c X y None of
           Inl e \<Rightarrow> (Raises e, s)
         | Inr m \<Rightarrow> (Returns (), s\<lparr>clf := Some m, trace := trace s @ [Fit idx X y m]\<rparr>))"

text \<open>The branch \<^verbatim>\<open>elif idx > train_count\<close>: predict, score, then maybe update.\<close>

definition classify ::
  "('v, 'k, 'f, 'm) config \<Rightarrow> nat \<Rightarrow> ('v, 'f, 'm) state \<Rightarrow> unit outcome \<times> ('v, 'f, 'm) state" where
  "classify c idx s =
     (case clf s of
        None \<Rightarrow> (Raises (UnboundLocalError ''clf''), s)
      | Some m \<Rightarrow>
     (case py_index (tr_data s) (int idx) of
        Inl e \<Rightarrow> (Raises e, s)
      | Inr row \<Rightarrow>
     (case predict c m row of
        Inl e \<Rightarrow> (Raises e, s)
      | Inr p \<Rightarrow>
     (let prediction = as_label p;
          s1 = s\<lparr>trace := trace s @ [Predict idx m prediction]\<rparr>
      in case py_index (labels c) (int idx - tr_shift) of
        Inl e \<Rightarrow> (Raises e, s1)
      | Inr l \<Rightarrow>
     (let n = (if prediction = l then num_correct s1 + 1 else num_correct s1);
          s2 = s1\<lparr>num_correct := n,
                  accuracy := Some (of_nat n / of_int (int idx - train_count c))\<rparr>
      in if incremental_batch c > 0
            \<and> (int idx - train_count c) mod incremental_batch c = 0
         then
           (let start_idx = int idx - incremental_batch c;
                X = py_slice (tr_data s2) (start_idx + tr_shift) (int idx);
                y = py_slice (labels c) start_idx (int idx - tr_shift)
            in case clf_obj c X y (Some m) of
                 Inl e \<Rightarrow> (Raises e, s2)
               | Inr m' \<Rightarrow>
                   (Returns (), s2\<lparr>clf := Some m', trace := trace s2 @ [Update idx X y m m']\<rparr>))
         else (Returns (), s2))))))"

definition realtime_step ::
  "('v, 'k, 'f, 'm) config \<Rightarrow> nat \<Rightarrow> ('v, 'f, 'm) state \<Rightarrow> unit outcome \<times> ('v, 'f, 'm) state" where
  "realtime_step c idx s =
     (case receive c idx s of
        (Returns u, s1) \<Rightarrow>
          if int idx < train_count c then (Returns (), s1)
          else if int idx = train_count c then train c idx s1
          else classify c idx s1
      | (Raises e, s1) \<Rightarrow> (Raises e, s1)
      | (Blocks, s1) \<Rightarrow> (Blocks, s1))"

text \<open>\<^verbatim>\<open>for idx in range(len(labels))\<close>, from \<open>idx\<close> on; an exception or a wait that never ends leaves the loop.\<close>

function realtime_loop ::
  "('v, 'k, 'f, 'm) config \<Rightarrow> nat \<Rightarrow> ('v, 'f, 'm) state \<Rightarrow> unit outcome \<times> ('v, 'f, 'm) state" where
  "realtime_loop c idx s =
     (if idx < length (labels c)
      then (case realtime_step c idx s of
              (Returns u, s') \<Rightarrow> realtime_loop c (Suc idx) s'
            | (Raises e, s') \<Rightarrow> (Raises e, s')
            | (Blocks, s') \<Rightarrow> (Blocks, s'))
      else (Returns (), s))"
  by pat_completeness auto
termination
  by (relation "measure (\<lambda>(c, idx, s). length (labels c) - idx)") auto

declare realtime_loop.simps [simp del]

text \<open>
  \<^verbatim>\<open>realtime\<close>: allocate \<^verbatim>\<open>tr_data\<close>, create and start a new observer, run the loop,
  stop the observer, return \<^verbatim>\<open>accuracy\<close>. The labels and the mask are the loaded
  arrays: the wait for the label file and the two loads come before the observer is
  created. The plotting calls and the timer have no effect on the result.
\<close>

definition init_state ::
  "('v, 'k, 'f, 'm) config \<Rightarrow> 'v world \<Rightarrow> observer list \<Rightarrow> ('v, 'f, 'm) state" where
  "init_state c w obs =
     \<lparr>world = w,
      observers = (obs @ [Unstarted])[length obs := Running],
      tr_data = replicate (length (labels c)) None,
      clf = None, num_correct = 0, accuracy = None, trace = []\<rparr>"

definition realtime ::
  "('v, 'k, 'f, 'm) config \<Rightarrow> 'v world \<Rightarrow> observer list \<Rightarrow> rat outcome \<times> ('v, 'f, 'm) state" where
  "realtime c w obs =
     (let file_observer = length obs in
      case realtime_loop c 0 (init_state c w obs) of
        (Returns u, s) \<Rightarrow>
          (let s' = s\<lparr>observers := (observers s)[file_observer := Stopped]\<rparr> in
           case accuracy s' of
             None \<Rightarrow> (Raises (UnboundLocalError ''accuracy''), s')
           | Some a \<Rightarrow> (Returns a, s'))
      | (Raises e, s) \<Rightarrow> (Raises e, s)
      | (Blocks, s) \<Rightarrow> (Blocks, s))"

text \<open>
  The cell that calls \<^verbatim>\<open>realtime\<close> inside \<^verbatim>\<open>try\<close>: its handler stops the observer
  that the module-level name \<^verbatim>\<open>file_observer\<close> is bound to (address \<open>g\<close>) and prints
  the exception.
\<close>

definition realtime_cell ::
  "nat \<Rightarrow> ('v, 'k, 'f, 'm) config \<Rightarrow> 'v world \<Rightarrow> observer list \<Rightarrow> unit outcome \<times> ('v, 'f, 'm) state" where
  "realtime_cell g c w obs =
     (case realtime c w obs of
        (Returns a, s) \<Rightarrow> (Returns (), s)
      | (Raises e, s) \<Rightarrow> (Returns (), s\<lparr>observers := (observers s)[g := Stopped]\<rparr>)
      | (Blocks, s) \<Rightarrow> (Blocks, s))"

section \<open>Preprocessing\<close>

text \<open>
  The notebook declares \<^verbatim>\<open>preprocess_vol\<close> and calls it, but leaves its body as an
  exercise. What follows is the spec's \<^verbatim>\<open>Preprocessor.transform\<close>: it applies the mask
  to select elements, flattens to one dimension, then z-scores (subtracts the mean,
  divides by the standard deviation) across the selected elements of this volume only,
  whatever the dtype of the volume. A volume and its mask are given flattened, in the
  same order, and the arithmetic is that of the real numbers. The spec does not say
  what the quotient is when the standard deviation is 0; no statement below depends on
  it.
\<close>

text \<open>
  Modelled from the spec: the Volume that the missing body of \<^verbatim>\<open>preprocess_vol\<close>
  receives, an array of integer or of floating-point intensities.
\<close>

datatype volume = Int_vol "int list" | Float_vol "real list"

text \<open>
  Modelled from the spec: the intensities of a volume as numbers, the first thing the
  missing body of \<^verbatim>\<open>preprocess_vol\<close> needs of its argument.
\<close>

fun intensities :: "volume \<Rightarrow> real list" where
  "intensities (Int_vol xs) = map of_int xs"
| "intensities (Float_vol xs) = xs"

text \<open>
  Modelled from the spec: the masking step of the missing body of \<^verbatim>\<open>preprocess_vol\<close>,
  the elements of the volume at which the mask is true, in order.
\<close>

definition select :: "real list \<Rightarrow> bool list \<Rightarrow> real list" where
  "select vol msk = map fst (filter snd (zip vol msk))"

text \<open>
  Modelled from the spec: the mean that the missing body of \<^verbatim>\<open>preprocess_vol\<close>
  subtracts.
\<close>

definition np_mean :: "real list \<Rightarrow> real" where
  "np_mean xs = sum_list xs / real (length xs)"

text \<open>
  Modelled from the spec: the standard deviation that the missing body of
  \<^verbatim>\<open>preprocess_vol\<close> divides by, the root of the mean squared deviation from the mean.
\<close>

definition np_std :: "real list \<Rightarrow> real" where
  "np_std xs = sqrt (np_mean (map (\<lambda>x. (x - np_mean xs)\<^sup>2) xs))"

text \<open>
  Modelled from the spec: the z-scoring step of the missing body of \<^verbatim>\<open>preprocess_vol\<close>,
  every element minus the mean of the elements, divided by their standard deviation.
\<close>

definition zscore :: "real list \<Rightarrow> real list" where
  "zscore xs = map (\<lambda>x. (x - np_mean xs) / np_std xs) xs"

text \<open>
  Modelled from the spec: the missing body of \<^verbatim>\<open>preprocess_vol\<close>, masking then
  z-scoring.
\<close>

definition transform :: "volume \<Rightarrow> bool list \<Rightarrow> real list" where
  "transform vol msk = zscore (select (intensities vol) msk)"

section \<open>Reading a trace\<close>

text \<open>
  \<open>batch_due\<close> names the test that guards the incremental update; \<open>received\<close> lists the
  indices whose volume was received, in the order of the trace.
\<close>

definition batch_due :: "('v, 'k, 'f, 'm) config \<Rightarrow> nat \<Rightarrow> bool" where
  "batch_due c idx =
     (incremental_batch c > 0 \<and> (int idx - train_count c) mod incremental_batch c = 0)"

primrec received :: "('v, 'f, 'm) event list \<Rightarrow> nat list" where
  "received [] = []"
| "received (e # es) = (case e of Volume i v \<Rightarrow> i # received es | _ \<Rightarrow> received es)"

fun is_fit :: "('v, 'f, 'm) event \<Rightarrow> bool" where
  "is_fit (Fit i X y m) = True"
| "is_fit e = False"

fun is_update :: "('v, 'f, 'm) event \<Rightarrow> bool" where
  "is_update (Update i X y m m') = True"
| "is_update e = False"

primrec predicted :: "('v, 'f, 'm) event list \<Rightarrow> nat list" where
  "predicted [] = []"
| "predicted (e # es) = (case e of Predict i m q \<Rightarrow> i # predicted es | _ \<Rightarrow> predicted es)"

text \<open>
  \<open>live tr\<close> replays a trace and gives the classifier that is live after it: the one
  returned by the last fit or update, if any.
\<close>

fun live_after :: "'m option \<Rightarrow> ('v, 'f, 'm) event \<Rightarrow> 'm option" where
  "live_after cur (Fit i X y m) = Some m"
| "live_after cur (Update i X y m m') = Some m'"
| "live_after cur e = cur"

definition live :: "('v, 'f, 'm) event list \<Rightarrow> 'm option" where
  "live tr = foldl live_after None tr"

section \<open>Loop invariants\<close>

text \<open>
  What holds before iteration \<open>i\<close> of the loop. \<open>rows_inv\<close>: every earlier row of
  \<^verbatim>\<open>tr_data\<close> holds the preprocessed volume received for its index. \<open>fit_inv\<close>: up to
  index \<^verbatim>\<open>train_count\<close> there is no classifier, no fit and no prediction; after it there
  is one fit, made at that index on the two slices of the source, and the predictions
  are those of the indices after it. \<open>score_inv\<close>: the bound on \<^verbatim>\<open>num_correct\<close> and what
  it gives for \<^verbatim>\<open>accuracy\<close>. \<open>update_inv\<close>: the updates are those of the due indices,
  each on the two slices of the source. \<open>order_inv\<close>: the classifier variable is the
  live classifier of the trace, every prediction was made by the classifier live at its
  position, and an update directly follows the prediction of its index.
\<close>

definition rows_inv :: "('v, 'k, 'f, 'm) config \<Rightarrow> nat \<Rightarrow> ('v, 'f, 'm) state \<Rightarrow> bool" where
  "rows_inv c i t =
     (length (tr_data t) = length (labels c)
      \<and> (\<forall>j<i. \<exists>v f. Volume j v \<in> set (trace t)
             \<and> preprocess_vol c v (mask_arr c) = Inr f \<and> tr_data t ! j = Some f))"

definition fit_inv :: "('v, 'k, 'f, 'm) config \<Rightarrow> nat \<Rightarrow> ('v, 'f, 'm) state \<Rightarrow> bool" where
  "fit_inv c i t =
     (if 0 \<le> train_count c \<and> train_count c < int i
      then (\<exists>m. filter is_fit (trace t) =
                  [Fit (nat (train_count c)) (py_slice (tr_data t) tr_shift (train_count c))
                     (py_slice (labels c) 0 (train_count c - tr_shift)) m]
                \<and> (incremental_batch c \<le> 0 \<longrightarrow>
                     clf t = Some m \<and> (\<forall>j m' q. Predict j m' q \<in> set (trace t) \<longrightarrow> m' = m)))
           \<and> clf t \<noteq> None
           \<and> predicted (trace t) = [Suc (nat (train_count c))..<i]
      else filter is_fit (trace t) = [] \<and> clf t = None \<and> predicted (trace t) = [])"

definition score_inv :: "('v, 'k, 'f, 'm) config \<Rightarrow> nat \<Rightarrow> ('v, 'f, 'm) state \<Rightarrow> bool" where
  "score_inv c i t =
     (int (num_correct t) \<le> max 0 (int i - 1 - train_count c)
      \<and> (\<forall>a. accuracy t = Some a \<longrightarrow> 0 \<le> a \<and> a \<le> 1 \<and> train_count c + 1 < int i)
      \<and> (0 \<le> train_count c \<and> train_count c + 1 < int i \<longrightarrow> accuracy t \<noteq> None))"

definition update_inv :: "('v, 'k, 'f, 'm) config \<Rightarrow> nat \<Rightarrow> ('v, 'f, 'm) state \<Rightarrow> bool" where
  "update_inv c i t =
     ((\<forall>j X y m m'. Update j X y m m' \<in> set (trace t) \<longrightarrow>
          j < i \<and> train_count c < int j \<and> batch_due c j
          \<and> X = py_slice (tr_data t) (int j - incremental_batch c + tr_shift) (int j)
          \<and> y = py_slice (labels c) (int j - incremental_batch c) (int j - tr_shift))
      \<and> (\<forall>j<i. train_count c < int j \<longrightarrow> batch_due c j \<longrightarrow>
            (\<exists>X y m m'. Update j X y m m' \<in> set (trace t))))"

definition ordered :: "('v, 'f, 'm) event list \<Rightarrow> bool" where
  "ordered tr =
     (\<forall>n<length tr.
        case tr ! n of
          Predict j m q \<Rightarrow> live (take n tr) = Some m
        | Update j X y m m' \<Rightarrow> 0 < n \<and> (\<exists>q. tr ! (n - 1) = Predict j m q)
        | _ \<Rightarrow> True)"

definition order_inv :: "('v, 'f, 'm) state \<Rightarrow> bool" where
  "order_inv t = (live (trace t) = clf t \<and> ordered (trace t))"

text \<open>
  \<open>frozen\<close>: every prediction of the trace was made by the classifier of its single
  fit, and that classifier is the one the variable holds.
\<close>

definition frozen :: "('v, 'f, 'm) state \<Rightarrow> bool" where
  "frozen t =
     ((\<forall>i m q. Predict i m q \<in> set (trace t) \<longrightarrow>
         (\<exists>k X y. filter is_fit (trace t) = [Fit k X y m]))
      \<and> (\<forall>m. clf t = Some m \<longrightarrow> (\<exists>k X y. filter is_fit (trace t) = [Fit k X y m])))"

text \<open>
  \<open>calls_inv\<close> ties the entries of the trace to the calls the controller makes: a fit
  entry holds the arguments and the result of a call of \<^verbatim>\<open>clf_obj\<close> without a
  classifier, an update entry those of a call with the live classifier, and a prediction
  entry the label of what \<^verbatim>\<open>predict\<close> returns on the row of its index, the preprocessed
  volume received for that index.
\<close>

definition calls_inv :: "('v, 'k, 'f, 'm) config \<Rightarrow> nat \<Rightarrow> ('v, 'f, 'm) state \<Rightarrow> bool" where
  "calls_inv c i t =
     ((\<forall>k X y m. Fit k X y m \<in> set (trace t) \<longrightarrow> clf_obj c X y None = Inr m)
      \<and> (\<forall>k X y m m'. Update k X y m m' \<in> set (trace t) \<longrightarrow> clf_obj c X y (Some m) = Inr m')
      \<and> (\<forall>k m q. Predict k m q \<in> set (trace t) \<longrightarrow>
            k < i \<and> (\<exists>v f p. Volume k v \<in> set (trace t) \<and> preprocess_vol c v (mask_arr c) = Inr f
                       \<and> tr_data t ! k = Some f \<and> predict c m (Some f) = Inr p \<and> q = as_label p)))"

text \<open>
  \<open>hand_inv\<close> says which classifier makes which prediction, by index: the one the fit
  returned classifies up to the first batch boundary (every index when no batch size is
  set), the one an update returned classifies the next batch, and the variable
  \<^verbatim>\<open>clf\<close> holds the classifier of the latest of them.
\<close>

definition hand_inv :: "('v, 'k, 'f, 'm) config \<Rightarrow> nat \<Rightarrow> ('v, 'f, 'm) state \<Rightarrow> bool" where
  "hand_inv c i t =
     ((\<forall>k X y m. Fit k X y m \<in> set (trace t) \<longrightarrow> int k = train_count c \<and> k < i)
      \<and> (\<forall>k X y m m'. Update k X y m m' \<in> set (trace t) \<longrightarrow>
            k < i \<and> train_count c < int k \<and> batch_due c k)
      \<and> (\<forall>k m q. Predict k m q \<in> set (trace t) \<longrightarrow> k < i \<and> train_count c < int k)
      \<and> (\<forall>k X y m j m'' q. Fit k X y m \<in> set (trace t) \<longrightarrow> Predict j m'' q \<in> set (trace t) \<longrightarrow>
            incremental_batch c \<le> 0 \<or> int j \<le> train_count c + incremental_batch c \<longrightarrow> m'' = m)
      \<and> (\<forall>k X y m. Fit k X y m \<in> set (trace t) \<longrightarrow>
            incremental_batch c \<le> 0 \<or> int i \<le> train_count c + incremental_batch c \<longrightarrow> clf t = Some m)
      \<and> (\<forall>k X y m m' j m'' q. Update k X y m m' \<in> set (trace t) \<longrightarrow> Predict j m'' q \<in> set (trace t) \<longrightarrow>
            k < j \<longrightarrow> int j \<le> int k + incremental_batch c \<longrightarrow> m'' = m')
      \<and> (\<forall>k X y m m'. Update k X y m m' \<in> set (trace t) \<longrightarrow>
            int i \<le> int k + incremental_batch c \<longrightarrow> clf t = Some m'))"

text \<open>
  A prediction entry is a \<open>hit\<close> when its label is \<^verbatim>\<open>labels[idx - tr_shift]\<close>.
  \<open>tally_inv\<close>: \<^verbatim>\<open>num_correct\<close> counts the hits of the trace, and \<^verbatim>\<open>accuracy\<close> is that
  count over the number of indices classified.
\<close>

definition hit :: "('v, 'k, 'f, 'm) config \<Rightarrow> ('v, 'f, 'm) event \<Rightarrow> bool" where
  "hit c e = (case e of Predict j m q \<Rightarrow> py_index (labels c) (int j - tr_shift) = Inr q | _ \<Rightarrow> False)"

definition tally_inv :: "('v, 'k, 'f, 'm) config \<Rightarrow> nat \<Rightarrow> ('v, 'f, 'm) state \<Rightarrow> bool" where
  "tally_inv c i t =
     (num_correct t = length (filter (hit c) (trace t))
      \<and> (0 \<le> train_count c \<longrightarrow> train_count c + 1 < int i \<longrightarrow>
           accuracy t = Some (of_nat (num_correct t) / of_int (int i - 1 - train_count c))))"

text \<open>A run completes when its loop has processed every index.\<close>

definition completes :: "('v, 'k, 'f, 'm) config \<Rightarrow> 'v world \<Rightarrow> observer list \<Rightarrow> bool" where
  "completes c w obs = (fst (realtime_loop c 0 (init_state c w obs)) = Returns ())"

section \<open>Runs that return\<close>

text \<open>
  \<open>volumes_arrive c i w\<close>: in the world \<open>w\<close> every volume file from index \<open>i\<close> on
  arrives whole. From the current tick on, a file whose name exists is complete and stays
  so; a creation event for it is queued no earlier than its name exists; and its name
  exists already or such an event is in the queue. \<open>never_raises c\<close>: preprocessing
  accepts every volume, the training function accepts the training labels
  \<^verbatim>\<open>labels[0:train_count - tr_shift]\<close> with any rows, an update accepts any batch, and
  \<^verbatim>\<open>predict\<close> accepts every row.
\<close>

definition volumes_arrive :: "('v, 'k, 'f, 'm) config \<Rightarrow> nat \<Rightarrow> 'v world \<Rightarrow> bool" where
  "volumes_arrive c i w =
     (\<forall>j. i \<le> j \<and> j < length (labels c) \<longrightarrow>
        (\<forall>t t'. clock w \<le> t \<and> t \<le> t' \<and> disk w t (data_dir c @ file_pattern j) \<noteq> None \<longrightarrow>
            (\<exists>v. disk w t' (data_dir c @ file_pattern j) = Some (Complete v)))
        \<and> (\<forall>a. (a, data_dir c @ file_pattern j) \<in> set (file_queue w) \<longrightarrow>
              disk w (max a (clock w)) (data_dir c @ file_pattern j) \<noteq> None)
        \<and> (disk w (clock w) (data_dir c @ file_pattern j) \<noteq> None
           \<or> (\<exists>a. (a, data_dir c @ file_pattern j) \<in> set (file_queue w))))"

definition never_raises :: "('v, 'k, 'f, 'm) config \<Rightarrow> bool" where
  "never_raises c =
     ((\<forall>v. \<exists>f. preprocess_vol c v (mask_arr c) = Inr f)
      \<and> (\<forall>X. \<exists>m. clf_obj c X (py_slice (labels c) 0 (train_count c - tr_shift)) None = Inr m)
      \<and> (\<forall>X y m. \<exists>m'. clf_obj c X y (Some m) = Inr m')
      \<and> (\<forall>m row. \<exists>p. predict c m row = Inr p))"

section \<open>Concrete runs\<close>

text \<open>
  A small classifier to run the controller on: a model is the number of rows it has been
  trained on, and it predicts \<^verbatim>\<open>True\<close> when that number is even. Volumes are numbers and
  preprocessing keeps them. \<open>on_disk idxs\<close> is a directory that holds the complete files
  of the listed indices, the volume of index \<open>i\<close> being \<open>i\<close>.
\<close>

definition toy_clf :: "(nat, unit, nat, nat) config" where
  "toy_clf =
     \<lparr>input_dir = ''./'', labels = [], mask_arr = (), train_count = 0,
      incremental_batch = 0, preprocess_vol = (\<lambda>vol m. Inr vol),
      clf_obj = (\<lambda>X y parameters.
        Inr (case parameters of None \<Rightarrow> length X | Some n \<Rightarrow> n + length X)),
      predict = (\<lambda>n row. Inr (PBool (even n)))\<rparr>"

definition on_disk :: "nat list \<Rightarrow> string \<Rightarrow> nat npy_file option" where
  "on_disk idxs = map_of (map (\<lambda>i. (''./data/'' @ file_pattern i, Complete i)) idxs)"

text \<open>
  Six volumes; the first four are on disk when the run starts, then the file of index 5
  is created (tick 1) and only then the file of index 4 (tick 2), and the two creation
  events are queued in that order.
\<close>

definition cfg54 :: "(nat, unit, nat, nat) config" where
  "cfg54 = toy_clf\<lparr>labels := [1, 2, 1, 2, 1, 2], train_count := 3\<rparr>"

definition w54 :: "nat world" where
  "w54 =
     \<lparr>clock = 0,
      disk = (\<lambda>t. on_disk ([0, 1, 2, 3] @ (if 1 \<le> t then [5] else []) @ (if 2 \<le> t then [4] else []))),
      file_queue = [(1, ''./data/rt_005.npy''), (2, ''./data/rt_004.npy'')]\<rparr>"

text \<open>
  \<open>all_on_disk n\<close>: the files of the indices below \<open>n\<close> are complete on disk from the
  start, and no event is queued. \<open>scenario_A\<close>: ten volumes, alternating labels, training
  threshold 5. \<open>threshold_at_end\<close>: four volumes and training threshold 4.
  \<open>threshold_below_shift\<close>: four volumes and training threshold 2.
  \<open>batches_of_4\<close>: twelve volumes, training threshold 3, incremental batch size 4.
\<close>

definition all_on_disk :: "nat \<Rightarrow> nat world" where
  "all_on_disk n = \<lparr>clock = 0, disk = (\<lambda>t. on_disk [0..<n]), file_queue = []\<rparr>"

definition scenario_A :: "(nat, unit, nat, nat) config" where
  "scenario_A = toy_clf\<lparr>labels := [1, 2, 1, 2, 1, 2, 1, 2, 1, 2], train_count := 5\<rparr>"

definition threshold_at_end :: "(nat, unit, nat, nat) config" where
  "threshold_at_end = toy_clf\<lparr>labels := [1, 2, 1, 2], train_count := 4\<rparr>"

definition threshold_below_shift :: "(nat, unit, nat, nat) config" where
  "threshold_below_shift = toy_clf\<lparr>labels := [1, 2, 1, 2], train_count := 2\<rparr>"

definition batches_of_4 :: "(nat, unit, nat, nat) config" where
  "batches_of_4 =
     toy_clf\<lparr>labels := [1, 2, 1, 2, 1, 2, 1, 2, 1, 2, 1, 2], train_count := 3,
             incremental_batch := 4\<rparr>"

text \<open>
  \<open>single_class_start\<close>: six volumes, training threshold 4, and a training function that,
  like \<^verbatim>\<open>train_logistic\<close> on \<^verbatim>\<open>training_labels == 2\<close>, raises unless both classes occur
  among its labels; the training labels \<^verbatim>\<open>labels[0:1]\<close> hold one class only.
  \<open>half_written\<close>: the file of index 0 exists from the start, but its contents are
  complete only from tick 2 on. \<open>written_late\<close>: the file of index 0 is created at tick 1,
  when its creation event is queued, and its contents are complete only from tick 3 on.
\<close>

definition single_class_start :: "(nat, unit, nat, nat) config" where
  "single_class_start =
     toy_clf\<lparr>labels := [1, 1, 2, 2, 1, 2], train_count := 4,
             clf_obj := (\<lambda>X y parameters.
               if list_ex (\<lambda>l. l = 2) y \<and> list_ex (\<lambda>l. l \<noteq> 2) y then Inr (length X)
               else Inl ValueError)\<rparr>"

definition half_written :: "nat world" where
  "half_written =
     \<lparr>clock = 0,
      disk = (\<lambda>t. if t < 2 then [''./data/rt_000.npy'' \<mapsto> Partial]
                  else [''./data/rt_000.npy'' \<mapsto> Complete 7]),
      file_queue = []\<rparr>"

definition written_late :: "nat world" where
  "written_late =
     \<lparr>clock = 0,
      disk = (\<lambda>t. if t < 1 then Map.empty
                  else if t < 3 then [''./data/rt_000.npy'' \<mapsto> Partial]
                  else [''./data/rt_000.npy'' \<mapsto> Complete 7]),
      file_queue = [(1, ''./data/rt_000.npy'')]\<rparr>"

text \<open>\<open>one_volume\<close>: a single volume and training threshold 0.\<close>

definition one_volume :: "(nat, unit, nat, nat) config" where
  "one_volume = toy_clf\<lparr>labels := [1], train_count := 0\<rparr>"

section \<open>Slices\<close>

lemma py_bound_le: "py_bound n i \<le> n"
  by (auto simp: py_bound_def max_def)

lemma py_bound_nonneg: "0 \<le> b \<Longrightarrow> py_bound n b \<le> nat b"
  by (simp add: py_bound_def)

lemma py_slice_take: "py_slice xs a b = drop (py_bound (length xs) a) (take (py_bound (length xs) b) xs)"
  by (simp add: py_slice_def Let_def drop_take)

lemma py_slice_update:
  assumes "0 \<le> b" and "b \<le> int k"
  shows "py_slice (xs[k := v]) a b = py_slice xs a b"
proof -
  have "py_bound (length xs) b \<le> k"
    using py_bound_nonneg [OF assms(1), of "length xs"] assms(2) by linarith
  then show ?thesis
    by (simp add: py_slice_take)
qed

lemma py_slice_nth:
  assumes "0 \<le> a" and "0 \<le> b" and "b \<le> int (length xs)"
  shows "py_slice xs a b = map ((!) xs) [nat a..<nat b]"
proof -
  have lo: "py_bound (length xs) a = min (length xs) (nat a)"
    using assms by (simp add: py_bound_def)
  have hi: "py_bound (length xs) b = nat b"
    using assms by (simp add: py_bound_def)
  have bl: "nat b \<le> length xs"
    using assms by linarith
  have "take (nat b - nat a) (drop (nat a) xs) = map ((!) xs) [nat a..<nat b]"
    using bl by (intro nth_equalityI) auto
  moreover have "take (nat b - min (length xs) (nat a)) (drop (min (length xs) (nat a)) xs)
      = take (nat b - nat a) (drop (nat a) xs)"
    using bl by (auto simp: min_def)
  ultimately show ?thesis
    by (simp add: py_slice_def Let_def lo hi)
qed

lemma aligned_pairs:
  assumes "0 \<le> a" and "a + tr_shift \<le> b" and "b \<le> int (length xs)" and "length ys = length xs"
  shows "zip (py_slice xs (a + tr_shift) b) (py_slice ys a (b - tr_shift))
       = map (\<lambda>i. (xs ! i, ys ! (i - nat tr_shift))) [nat (a + tr_shift)..<nat b]"
    and "length (py_slice xs (a + tr_shift) b) = nat (b - (a + tr_shift))"
    and "length (py_slice ys a (b - tr_shift)) = nat (b - (a + tr_shift))"
proof -
  have X: "py_slice xs (a + tr_shift) b = map ((!) xs) [nat (a + tr_shift)..<nat b]"
    using assms by (intro py_slice_nth) (auto simp: tr_shift_def)
  have Y: "py_slice ys a (b - tr_shift) = map ((!) ys) [nat a..<nat (b - tr_shift)]"
    using assms by (intro py_slice_nth) (auto simp: tr_shift_def)
  have "nat b - nat (a + tr_shift) = nat (b - (a + tr_shift))"
    using assms(1) by (simp add: tr_shift_def)
  then show "length (py_slice xs (a + tr_shift) b) = nat (b - (a + tr_shift))"
    by (simp add: X)
  have "nat (b - tr_shift) - nat a = nat (b - (a + tr_shift))"
    using assms(1) by (simp add: tr_shift_def)
  then show "length (py_slice ys a (b - tr_shift)) = nat (b - (a + tr_shift))"
    by (simp add: Y)
  show "zip (py_slice xs (a + tr_shift) b) (py_slice ys a (b - tr_shift))
       = map (\<lambda>i. (xs ! i, ys ! (i - nat tr_shift))) [nat (a + tr_shift)..<nat b]"
    unfolding X Y using assms(1,2)
    by (intro nth_equalityI) (auto simp: tr_shift_def nat_add_distrib)
qed

section \<open>The watchers\<close>

declare tr_watcher_simple.simps [code]

lemma await_event_Some:
  "await_event filename t q = Some (t', q') \<Longrightarrow> t \<le> t'"
  by (induction filename t q rule: await_event.induct) (auto split: if_splits)

lemma np_load_cases:
  "case disk w (clock w) filename of
     Some (Complete vol) \<Rightarrow> np_load filename w = Returns vol
   | Some Partial \<Rightarrow> np_load filename w = Raises LoadError
   | None \<Rightarrow> np_load filename w = Raises FileNotFoundError"
  by (simp add: np_load_def split: option.splits npy_file.splits)

lemma tr_watcher_once:
  assumes "tr_watcher filename w = (r, w')"
  shows "disk w' = disk w \<and> clock w \<le> clock w' \<and> (path_exists w filename \<longrightarrow> w' = w)
       \<and> (case disk w (clock w') filename of
            Some (Complete vol) \<Rightarrow> r = Returns vol
          | Some Partial \<Rightarrow> r = Raises LoadError
          | None \<Rightarrow> r = Blocks \<or> r = Raises FileNotFoundError)"
proof (cases "path_exists w filename")
  case True
  with assms have "w' = w" "r = np_load filename w"
    by (auto simp: tr_watcher_def)
  with True np_load_cases [where w = w and filename = filename] show ?thesis
    by (auto split: option.splits npy_file.splits)
next
  case False
  show ?thesis
  proof (cases "await_event filename (clock w) (file_queue w)")
    case None
    with False assms have "r = Blocks" "w' = w\<lparr>file_queue := []\<rparr>"
      by (auto simp: tr_watcher_def)
    with False show ?thesis
      by (simp add: path_exists_def)
  next
    case (Some tq)
    obtain t q where tq: "tq = (t, q)" by (cases tq)
    with Some False assms have w': "w' = w\<lparr>clock := t, file_queue := q\<rparr>"
      and r: "r = np_load filename (w\<lparr>clock := t, file_queue := q\<rparr>)"
      by (auto simp: tr_watcher_def Let_def)
    from Some tq have "clock w \<le> t" by (auto dest: await_event_Some)
    with False w' r np_load_cases [where w = "w\<lparr>clock := t, file_queue := q\<rparr>" and filename = filename] show ?thesis
      by (auto split: option.splits npy_file.splits)
  qed
qed

lemma tr_watcher_simple_once_aux:
  assumes "tr_watcher_simple filename sleep_time w = Some y"
  shows "disk (snd y) = disk w \<and> clock w \<le> clock (snd y) \<and> (path_exists w filename \<longrightarrow> snd y = w)
       \<and> (case disk w (clock (snd y)) filename of
            Some (Complete vol) \<Rightarrow> fst y = Returns vol
          | Some Partial \<Rightarrow> fst y = Raises LoadError
          | None \<Rightarrow> False)"
proof (rule tr_watcher_simple.raw_induct [OF _ assms], goal_cases)
  case (1 poll filename sleep_time w y)
  note IH = 1(1) and eq = 1(2)
  show ?case
  proof (cases "path_exists w filename")
    case True
    with eq have y: "y = (np_load filename w, w)" by simp
    from True np_load_cases [where w = w and filename = filename] show ?thesis
      unfolding y by (auto simp: path_exists_def split: option.splits npy_file.splits)
  next
    case False
    with eq have "poll filename sleep_time (w\<lparr>clock := clock w + sleep_time\<rparr>) = Some y"
      by simp
    from IH [OF this] False show ?thesis
      by simp
  qed
qed

lemma tr_watcher_simple_once:
  assumes "tr_watcher_simple filename sleep_time w = Some (r, w')"
  shows "disk w' = disk w \<and> clock w \<le> clock w' \<and> (path_exists w filename \<longrightarrow> w' = w)
       \<and> (case disk w (clock w') filename of
            Some (Complete vol) \<Rightarrow> r = Returns vol
          | Some Partial \<Rightarrow> r = Raises LoadError
          | None \<Rightarrow> False)"
  using tr_watcher_simple_once_aux [OF assms] by (simp split: option.splits npy_file.splits)

section \<open>One iteration, case by case\<close>

lemma classify_Returns:
  assumes "classify c i t = (Returns (), t')"
  shows "\<exists>m row p l. clf t = Some m \<and> py_index (tr_data t) (int i) = Inr row
            \<and> predict c m row = Inr p \<and> py_index (labels c) (int i - tr_shift) = Inr l
            \<and> num_correct t' = (if as_label p = l then num_correct t + 1 else num_correct t)
            \<and> accuracy t' = Some (of_nat (num_correct t') / of_int (int i - train_count c))
            \<and> tr_data t' = tr_data t \<and> observers t' = observers t \<and> world t' = world t
            \<and> (if batch_due c i
               then \<exists>m'. clf_obj c (py_slice (tr_data t) (int i - incremental_batch c + tr_shift) (int i))
                      (py_slice (labels c) (int i - incremental_batch c) (int i - tr_shift)) (Some m) = Inr m'
                    \<and> clf t' = Some m'
                    \<and> trace t' = trace t @ [Predict i m (as_label p),
                        Update i (py_slice (tr_data t) (int i - incremental_batch c + tr_shift) (int i))
                          (py_slice (labels c) (int i - incremental_batch c) (int i - tr_shift)) m m']
               else clf t' = Some m \<and> trace t' = trace t @ [Predict i m (as_label p)])"
proof (cases "clf t")
  case None
  with assms show ?thesis by (simp add: classify_def)
next
  case (Some m)
  note m = this
  show ?thesis
  proof (cases "py_index (tr_data t) (int i)")
    case (Inl e)
    with assms m show ?thesis by (simp add: classify_def)
  next
    case (Inr row)
    note row = this
    show ?thesis
    proof (cases "predict c m row")
      case (Inl e)
      with assms m row show ?thesis by (simp add: classify_def)
    next
      case (Inr p)
      note p = this
      show ?thesis
      proof (cases "py_index (labels c) (int i - tr_shift)")
        case (Inl e)
        with assms m row p show ?thesis by (simp add: classify_def Let_def)
      next
        case (Inr l)
        note l = this
        show ?thesis
        proof (cases "batch_due c i")
          case False
          with assms m row p l show ?thesis
            by (auto simp add: classify_def Let_def batch_due_def)
        next
          case True
          with assms m row p l show ?thesis
            by (auto simp add: classify_def Let_def batch_due_def split: sum.splits)
        qed
      qed
    qed
  qed
qed


lemma classify_fails:
  assumes "classify c i t = (r, t')" and "r \<noteq> Returns ()"
  shows "clf t' = clf t \<and> tr_data t' = tr_data t \<and> observers t' = observers t
       \<and> (trace t' = trace t \<or> (\<exists>m q. clf t = Some m \<and> trace t' = trace t @ [Predict i m q]))"
proof (cases "clf t")
  case None
  with assms show ?thesis by (auto simp add: classify_def)
next
  case (Some m)
  note m = this
  show ?thesis
  proof (cases "py_index (tr_data t) (int i)")
    case (Inl e)
    with assms m show ?thesis by (auto simp add: classify_def)
  next
    case (Inr row)
    note row = this
    show ?thesis
    proof (cases "predict c m row")
      case (Inl e)
      with assms m row show ?thesis by (auto simp add: classify_def)
    next
      case (Inr p)
      note p = this
      show ?thesis
      proof (cases "py_index (labels c) (int i - tr_shift)")
        case (Inl e)
        with assms m row p show ?thesis by (auto simp add: classify_def Let_def)
      next
        case (Inr l)
        with assms m row p show ?thesis
          by (auto simp add: classify_def Let_def split: sum.splits if_splits)
      qed
    qed
  qed
qed

lemma train_Returns:
  assumes "train c i t = (Returns (), t')"
  shows "\<exists>m. clf_obj c (py_slice (tr_data t) tr_shift (train_count c))
                 (py_slice (labels c) 0 (train_count c - tr_shift)) None = Inr m
            \<and> clf t' = Some m
            \<and> trace t' = trace t @ [Fit i (py_slice (tr_data t) tr_shift (train_count c))
                        (py_slice (labels c) 0 (train_count c - tr_shift)) m]
            \<and> tr_data t' = tr_data t \<and> observers t' = observers t \<and> world t' = world t
            \<and> num_correct t' = num_correct t \<and> accuracy t' = accuracy t"
  using assms by (auto simp: train_def Let_def split: sum.splits)

lemma train_fails:
  assumes "train c i t = (r, t')" and "r \<noteq> Returns ()"
  shows "t' = t"
  using assms by (auto simp: train_def Let_def split: sum.splits)

lemma receive_Returns:
  assumes "receive c i t = (Returns (), t1)"
  shows "\<exists>v f. i < length (tr_data t) \<and> preprocess_vol c v (mask_arr c) = Inr f
           \<and> trace t1 = trace t @ [Volume i v] \<and> tr_data t1 = (tr_data t)[i := Some f] \<and> clf t1 = clf t
           \<and> num_correct t1 = num_correct t \<and> accuracy t1 = accuracy t \<and> observers t1 = observers t"
  using assms
  by (auto simp: receive_def Let_def split: prod.splits outcome.splits sum.splits if_splits)

lemma receive_fails:
  assumes "receive c i t = (r, t1)" and "r \<noteq> Returns ()"
  shows "tr_data t1 = tr_data t \<and> clf t1 = clf t \<and> observers t1 = observers t
       \<and> accuracy t1 = accuracy t
       \<and> (trace t1 = trace t \<or> (\<exists>v. trace t1 = trace t @ [Volume i v]))"
  using assms
  by (auto simp: receive_def Let_def split: prod.splits outcome.splits sum.splits if_splits)

lemma py_index_nth: "i < length xs \<Longrightarrow> py_index xs (int i) = Inr (xs ! i)"
  by (simp add: py_index_def)

lemma realtime_step_Returns:
  assumes "realtime_step c i t = (Returns (), t')"
  shows "\<exists>v f. i < length (tr_data t) \<and> preprocess_vol c v (mask_arr c) = Inr f
     \<and> tr_data t' = (tr_data t)[i := Some f] \<and> observers t' = observers t
     \<and> (if int i < train_count c
        then trace t' = trace t @ [Volume i v] \<and> clf t' = clf t
             \<and> num_correct t' = num_correct t \<and> accuracy t' = accuracy t
        else if int i = train_count c
        then \<exists>m. clf_obj c (py_slice (tr_data t') tr_shift (train_count c))
                 (py_slice (labels c) 0 (train_count c - tr_shift)) None = Inr m
             \<and> trace t' = trace t @ [Volume i v, Fit i (py_slice (tr_data t') tr_shift (train_count c))
                        (py_slice (labels c) 0 (train_count c - tr_shift)) m]
             \<and> clf t' = Some m \<and> num_correct t' = num_correct t \<and> accuracy t' = accuracy t
        else \<exists>m p l. clf t = Some m \<and> predict c m (Some f) = Inr p
             \<and> py_index (labels c) (int i - tr_shift) = Inr l
             \<and> num_correct t' = (if as_label p = l then num_correct t + 1 else num_correct t)
             \<and> accuracy t' = Some (of_nat (num_correct t') / of_int (int i - train_count c))
             \<and> (if batch_due c i
                then \<exists>m'. clf_obj c (py_slice (tr_data t') (int i - incremental_batch c + tr_shift) (int i))
                      (py_slice (labels c) (int i - incremental_batch c) (int i - tr_shift)) (Some m) = Inr m'
                    \<and> clf t' = Some m'
                    \<and> trace t' = trace t @ [Volume i v, Predict i m (as_label p),
                        Update i (py_slice (tr_data t') (int i - incremental_batch c + tr_shift) (int i))
                          (py_slice (labels c) (int i - incremental_batch c) (int i - tr_shift)) m m']
                else clf t' = Some m \<and> trace t' = trace t @ [Volume i v, Predict i m (as_label p)]))"
proof -
  from assms obtain t1 where r: "receive c i t = (Returns (), t1)"
    and rest: "(if int i < train_count c then (Returns (), t1)
          else if int i = train_count c then train c i t1
          else classify c i t1) = (Returns (), t')"
    by (auto simp: realtime_step_def split: prod.splits outcome.splits)
  from receive_Returns [OF r] obtain v f where
    rc: "i < length (tr_data t)" "preprocess_vol c v (mask_arr c) = Inr f"
      "trace t1 = trace t @ [Volume i v]" "tr_data t1 = (tr_data t)[i := Some f]" "clf t1 = clf t"
      "num_correct t1 = num_correct t" "accuracy t1 = accuracy t" "observers t1 = observers t"
    by blast
  show ?thesis
  proof (cases "int i < train_count c")
    case True
    with rest have "t' = t1" by simp
    with True rc show ?thesis
      by (intro exI [of _ v] exI [of _ f]) auto
  next
    case False
    note nlt = this
    show ?thesis
    proof (cases "int i = train_count c")
      case True
      with rest have "train c i t1 = (Returns (), t')" by simp
      from train_Returns [OF this] rc True show ?thesis
        by (intro exI [of _ v] exI [of _ f]) auto
    next
      case False
      with nlt rest have "classify c i t1 = (Returns (), t')" by simp
      from classify_Returns [OF this] obtain m row p l where
        cl: "clf t1 = Some m" "py_index (tr_data t1) (int i) = Inr row"
            "predict c m row = Inr p" "py_index (labels c) (int i - tr_shift) = Inr l"
            "num_correct t' = (if as_label p = l then num_correct t1 + 1 else num_correct t1)"
            "accuracy t' = Some (of_nat (num_correct t') / of_int (int i - train_count c))"
            "tr_data t' = tr_data t1" "observers t' = observers t1"
            "(if batch_due c i
               then \<exists>m'. clf_obj c (py_slice (tr_data t1) (int i - incremental_batch c + tr_shift) (int i))
                      (py_slice (labels c) (int i - incremental_batch c) (int i - tr_shift)) (Some m) = Inr m'
                    \<and> clf t' = Some m'
                    \<and> trace t' = trace t1 @ [Predict i m (as_label p),
                        Update i (py_slice (tr_data t1) (int i - incremental_batch c + tr_shift) (int i))
                          (py_slice (labels c) (int i - incremental_batch c) (int i - tr_shift)) m m']
               else clf t' = Some m \<and> trace t' = trace t1 @ [Predict i m (as_label p)])"
        by blast
      have row: "row = Some f"
        using cl(2) rc(1,4) by (simp add: py_index_nth)
      have "\<exists>m p l. clf t = Some m \<and> predict c m (Some f) = Inr p
             \<and> py_index (labels c) (int i - tr_shift) = Inr l
             \<and> num_correct t' = (if as_label p = l then num_correct t + 1 else num_correct t)
             \<and> accuracy t' = Some (of_nat (num_correct t') / of_int (int i - train_count c))
             \<and> (if batch_due c i
                then \<exists>m'. clf_obj c (py_slice (tr_data t') (int i - incremental_batch c + tr_shift) (int i))
                      (py_slice (labels c) (int i - incremental_batch c) (int i - tr_shift)) (Some m) = Inr m'
                    \<and> clf t' = Some m'
                    \<and> trace t' = trace t @ [Volume i v, Predict i m (as_label p),
                        Update i (py_slice (tr_data t') (int i - incremental_batch c + tr_shift) (int i))
                          (py_slice (labels c) (int i - incremental_batch c) (int i - tr_shift)) m m']
                else clf t' = Some m \<and> trace t' = trace t @ [Volume i v, Predict i m (as_label p)])"
        apply (rule exI [of _ m], rule exI [of _ p], rule exI [of _ l])
        using rc cl row by (cases "batch_due c i") auto
      then show ?thesis
        apply (intro exI [of _ v] exI [of _ f])
        using nlt False rc cl(7,8) by simp
    qed
  qed
qed

lemma realtime_step_fails:
  assumes "realtime_step c i t = (r, t')" and "r \<noteq> Returns ()"
  shows "clf t' = clf t \<and> observers t' = observers t
       \<and> (accuracy t' = accuracy t \<or> train_count c < int i)
       \<and> (tr_data t' = tr_data t \<or> (\<exists>f. i < length (tr_data t) \<and> tr_data t' = (tr_data t)[i := Some f]))
       \<and> (trace t' = trace t \<or> (\<exists>v. trace t' = trace t @ [Volume i v])
          \<or> (\<exists>v m q. train_count c < int i \<and> clf t = Some m \<and> trace t' = trace t @ [Volume i v, Predict i m q]))"
proof (cases "receive c i t")
  case (Pair r1 t1)
  show ?thesis
  proof (cases "r1 = Returns ()")
    case False
    with Pair assms have "r = r1" "t' = t1"
      by (auto simp: realtime_step_def split: outcome.splits)
    with receive_fails [OF Pair False] show ?thesis by auto
  next
    case True
    with Pair have r: "receive c i t = (Returns (), t1)" by simp
    from receive_Returns [OF r] obtain v f where
      rc: "i < length (tr_data t)"
        "trace t1 = trace t @ [Volume i v]" "tr_data t1 = (tr_data t)[i := Some f]" "clf t1 = clf t"
        "observers t1 = observers t" "accuracy t1 = accuracy t"
      by blast
    from assms r have rest: "(if int i < train_count c then (Returns (), t1)
          else if int i = train_count c then train c i t1
          else classify c i t1) = (r, t')"
      by (simp add: realtime_step_def)
    show ?thesis
    proof (cases "int i < train_count c")
      case True
      with rest assms(2) show ?thesis by simp
    next
      case False
      note nlt = this
      show ?thesis
      proof (cases "int i = train_count c")
        case True
        with rest have "train c i t1 = (r, t')" by simp
        from train_fails [OF this assms(2)] rc show ?thesis by auto
      next
        case False
        with nlt rest have "classify c i t1 = (r, t')" by simp
        from classify_fails [OF this assms(2)] rc nlt False show ?thesis by auto
      qed
    qed
  qed
qed

section \<open>The loop\<close>

lemma received_append [simp]: "received (xs @ ys) = received xs @ received ys"
  by (induction xs) (auto split: event.splits)

lemma realtime_loop_rule_aux:
  assumes "realtime_loop c i t = (r, t')" and "I i t"
    and "\<forall>j u u'. j < length (labels c) \<longrightarrow> I j u \<longrightarrow> realtime_step c j u = (Returns (), u') \<longrightarrow> I (Suc j) u'"
  shows "(r = Returns () \<and> (\<exists>n. I n t' \<and> length (labels c) \<le> n \<and> (i \<le> length (labels c) \<longrightarrow> n = length (labels c))))
       \<or> (r \<noteq> Returns () \<and> (\<exists>j u. j < length (labels c) \<and> i \<le> j \<and> I j u \<and> realtime_step c j u = (r, t')))"
  using assms
proof (induction c i t rule: realtime_loop.induct)
  case (1 c idx s)
  note step = "1.prems"(3)
  show ?case
  proof (cases "idx < length (labels c)")
    case False
    with "1.prems" have "r = Returns ()" "t' = s"
      by (simp_all add: realtime_loop.simps)
    with False "1.prems" show ?thesis by auto
  next
    case True
    obtain r1 s1 where st: "realtime_step c idx s = (r1, s1)"
      by (cases "realtime_step c idx s")
    show ?thesis
    proof (cases "r1 = Returns ()")
      case False
      with True st "1.prems" have "r = r1" "t' = s1"
        by (auto simp: realtime_loop.simps [of c idx s] split: outcome.splits)
      with False True st "1.prems" show ?thesis by auto
    next
      case r1: True
      with True st "1.prems" have lp: "realtime_loop c (Suc idx) s1 = (r, t')"
        by (simp add: realtime_loop.simps [of c idx s])
      have I1: "I (Suc idx) s1"
        using step True "1.prems"(2) st r1 by simp
      from "1.IH" [OF True st [symmetric] r1 lp I1 step] True
      show ?thesis by (auto simp: Suc_le_eq dest: Suc_leD)
    qed
  qed
qed

lemma realtime_loop_rule:
  assumes "realtime_loop c i t = (r, t')" and "I i t" and "i \<le> length (labels c)"
    and step: "\<And>j u u'. j < length (labels c) \<Longrightarrow> I j u \<Longrightarrow> realtime_step c j u = (Returns (), u') \<Longrightarrow> I (Suc j) u'"
  shows "(r = Returns () \<and> I (length (labels c)) t')
       \<or> (r \<noteq> Returns () \<and> (\<exists>j u. j < length (labels c) \<and> i \<le> j \<and> I j u \<and> realtime_step c j u = (r, t')))"
  using realtime_loop_rule_aux [of c i t r t' I] assms by blast

lemma realtime_trace:
  "trace (snd (realtime c w obs)) = trace (snd (realtime_loop c 0 (init_state c w obs)))"
  by (simp add: realtime_def Let_def split: prod.splits outcome.splits option.splits)

lemma received_step_Returns:
  assumes "realtime_step c j u = (Returns (), u')"
  shows "received (trace u') = received (trace u) @ [j]"
  using realtime_step_Returns [OF assms] by (auto split: if_splits)

lemma received_step_fails:
  assumes "realtime_step c j u = (r, u')" and "r \<noteq> Returns ()"
  shows "received (trace u') = received (trace u) \<or> received (trace u') = received (trace u) @ [j]"
  using realtime_step_fails [OF assms] by auto

lemma received_loop:
  assumes "realtime_loop c 0 (init_state c w obs) = (r, t')"
  shows "\<exists>k. k \<le> length (labels c) \<and> received (trace t') = [0..<k]"
proof -
  have init: "received (trace (init_state c w obs)) = [0..<0]"
    by (simp add: init_state_def)
  from realtime_loop_rule [of c 0 "init_state c w obs" r t' "\<lambda>j u. received (trace u) = [0..<j]", OF assms init]
  have "(r = Returns () \<and> received (trace t') = [0..<length (labels c)])
       \<or> (r \<noteq> Returns () \<and> (\<exists>j u. j < length (labels c) \<and> 0 \<le> j \<and> received (trace u) = [0..<j] \<and> realtime_step c j u = (r, t')))"
    by (simp add: received_step_Returns)
  then show ?thesis
  proof
    assume "r = Returns () \<and> received (trace t') = [0..<length (labels c)]"
    then show ?thesis by auto
  next
    assume "r \<noteq> Returns () \<and> (\<exists>j u. j < length (labels c) \<and> 0 \<le> j \<and> received (trace u) = [0..<j] \<and> realtime_step c j u = (r, t'))"
    then obtain j u where f: "r \<noteq> Returns ()" "j < length (labels c)" "received (trace u) = [0..<j]"
      "realtime_step c j u = (r, t')" by blast
    from received_step_fails [OF f(4) f(1)] f(3)
    have "received (trace t') = [0..<j] \<or> received (trace t') = [0..<Suc j]" by simp
    with f(2) show ?thesis
      by (metis Suc_leI less_imp_le_nat)
  qed
qed

section \<open>Volumes come from the files of their indices\<close>

lemma train_world: "train c i t = (r, t') \<Longrightarrow> world t' = world t"
  by (auto simp: train_def Let_def split: sum.splits)

lemma classify_world:
  assumes "classify c i t = (r, t')"
  shows "world t' = world t"
proof (cases "r = Returns ()")
  case True
  with assms classify_Returns [of c i t t'] show ?thesis by auto
next
  case False
  show ?thesis
  proof (cases "clf t")
    case None
    with assms show ?thesis by (auto simp add: classify_def)
  next
    case (Some m)
    note m = this
    show ?thesis
    proof (cases "py_index (tr_data t) (int i)")
      case (Inl e)
      with assms m show ?thesis by (auto simp add: classify_def)
    next
      case (Inr row)
      note row = this
      show ?thesis
      proof (cases "predict c m row")
        case (Inl e)
        with assms m row show ?thesis by (auto simp add: classify_def)
      next
        case (Inr p)
        note p = this
        show ?thesis
        proof (cases "py_index (labels c) (int i - tr_shift)")
          case (Inl e)
          with assms m row p show ?thesis by (auto simp add: classify_def Let_def)
        next
          case (Inr l)
          with assms m row p show ?thesis
            by (auto simp add: classify_def Let_def split: sum.splits if_splits)
        qed
      qed
    qed
  qed
qed

lemma receive_world:
  assumes "receive c i t = (r, t1)"
  shows "disk (world t1) = disk (world t)
       \<and> (trace t1 = trace t
          \<or> (\<exists>v tm. trace t1 = trace t @ [Volume i v]
                \<and> disk (world t) tm (data_dir c @ file_pattern i) = Some (Complete v)))"
proof -
  obtain x w' where tw: "tr_watcher (data_dir c @ file_pattern i) (world t) = (x, w')"
    by (cases "tr_watcher (data_dir c @ file_pattern i) (world t)")
  note once = tr_watcher_once [OF tw]
  show ?thesis
  proof (cases x)
    case (Returns vol)
    with once have "disk (world t) (clock w') (data_dir c @ file_pattern i) = Some (Complete vol)"
      by (auto split: option.splits npy_file.splits)
    with assms tw Returns once show ?thesis
      by (auto simp: receive_def Let_def split: sum.splits if_splits)
  next
    case (Raises e)
    with assms tw once show ?thesis
      by (auto simp: receive_def Let_def)
  next
    case Blocks
    with assms tw once show ?thesis
      by (auto simp: receive_def Let_def)
  qed
qed

lemma realtime_step_world:
  assumes "realtime_step c i t = (r, t')"
  shows "disk (world t') = disk (world t)
       \<and> (\<forall>j v. Volume j v \<in> set (trace t') \<longrightarrow>
             Volume j v \<in> set (trace t)
             \<or> (\<exists>tm. disk (world t) tm (data_dir c @ file_pattern j) = Some (Complete v)))"
proof -
  obtain r1 t1 where rc: "receive c i t = (r1, t1)"
    by (cases "receive c i t")
  from receive_world [OF rc] have d1: "disk (world t1) = disk (world t)"
    and v1: "\<forall>j v. Volume j v \<in> set (trace t1) \<longrightarrow>
             Volume j v \<in> set (trace t)
             \<or> (\<exists>tm. disk (world t) tm (data_dir c @ file_pattern j) = Some (Complete v))"
    by auto
  have "world t' = world t1 \<and> (\<forall>j v. Volume j v \<in> set (trace t') \<longrightarrow> Volume j v \<in> set (trace t1))"
  proof (cases "r1 = Returns ()")
    case False
    with rc assms have "t' = t1"
      by (auto simp: realtime_step_def split: outcome.splits)
    then show ?thesis by simp
  next
    case True
    with rc assms have rest: "(if int i < train_count c then (Returns (), t1)
          else if int i = train_count c then train c i t1
          else classify c i t1) = (r, t')"
      by (simp add: realtime_step_def)
    consider (collect) "int i < train_count c" | (train) "int i = train_count c"
      | (test) "train_count c < int i"
      by linarith
    then show ?thesis
    proof cases
      case collect
      with rest show ?thesis by simp
    next
      case train
      with rest have tr: "train c i t1 = (r, t')" by simp
      show ?thesis
      proof (cases "r = Returns ()")
        case True
        with tr train_Returns [of c i t1 t'] train_world [OF tr] show ?thesis by auto
      next
        case False
        from train_fails [OF tr False] show ?thesis by simp
      qed
    next
      case test
      with rest have cl: "classify c i t1 = (r, t')" by simp
      show ?thesis
      proof (cases "r = Returns ()")
        case True
        with cl classify_Returns [of c i t1 t'] classify_world [OF cl] show ?thesis
          by (auto split: if_splits)
      next
        case False
        from classify_fails [OF cl False] classify_world [OF cl] show ?thesis by auto
      qed
    qed
  qed
  with d1 v1 show ?thesis by auto
qed

lemma volumes_from_disk:
  assumes "realtime_loop c 0 (init_state c w obs) = (r, s)" and "Volume j v \<in> set (trace s)"
  shows "\<exists>tm. disk w tm (data_dir c @ file_pattern j) = Some (Complete v)"
proof -
  let ?I = "\<lambda>(k::nat) u. disk (world u) = disk w
      \<and> (\<forall>j v. Volume j v \<in> set (trace u) \<longrightarrow>
            (\<exists>tm. disk w tm (data_dir c @ file_pattern j) = Some (Complete v)))"
  have init: "?I 0 (init_state c w obs)"
    by (simp add: init_state_def)
  have step: "?I k u'" if "?I k' u" "realtime_step c k' u = (x, u')" for k k' u u' x
    using that realtime_step_world [of c k' u x u'] by metis
  from realtime_loop_rule_aux [of c 0 "init_state c w obs" r s ?I, OF assms(1) init]
  have "?I 0 s" using step by blast
  with assms(2) show ?thesis by blast
qed

section \<open>The invariants are kept\<close>

lemma predicted_append [simp]: "predicted (xs @ ys) = predicted xs @ predicted ys"
  by (induction xs) (auto split: event.splits)

lemma predicted_Nil: "predicted tr = [] \<Longrightarrow> Predict j m q \<notin> set tr"
  by (induction tr) (auto split: event.splits)

lemma realtime_step_Returns_frame:
  assumes "realtime_step c i t = (Returns (), t')"
  shows "\<exists>v f es. i < length (tr_data t) \<and> preprocess_vol c v (mask_arr c) = Inr f
     \<and> tr_data t' = (tr_data t)[i := Some f] \<and> observers t' = observers t
     \<and> trace t' = trace t @ Volume i v # es"
proof -
  from realtime_step_Returns [OF assms] obtain v f where
    *: "i < length (tr_data t)" "preprocess_vol c v (mask_arr c) = Inr f"
       "tr_data t' = (tr_data t)[i := Some f]" "observers t' = observers t"
    and **: "\<exists>es. trace t' = trace t @ Volume i v # es"
    by (auto split: if_splits)
  then show ?thesis by blast
qed

lemma rows_inv_step:
  assumes "rows_inv c i t" and "realtime_step c i t = (Returns (), t')"
  shows "rows_inv c (Suc i) t'"
proof -
  from realtime_step_Returns_frame [OF assms(2)] obtain v f es where
    *: "i < length (tr_data t)" "preprocess_vol c v (mask_arr c) = Inr f"
       "tr_data t' = (tr_data t)[i := Some f]" "trace t' = trace t @ Volume i v # es"
    by blast
  have len: "length (tr_data t') = length (labels c)"
    using assms(1) * by (simp add: rows_inv_def)
  have "\<exists>v f. Volume j v \<in> set (trace t') \<and> preprocess_vol c v (mask_arr c) = Inr f
            \<and> tr_data t' ! j = Some f" if "j < Suc i" for j
  proof (cases "j = i")
    case True
    with * show ?thesis by auto
  next
    case False
    with that have "j < i" by simp
    with assms(1) obtain v' f' where "Volume j v' \<in> set (trace t)"
      "preprocess_vol c v' (mask_arr c) = Inr f'" "tr_data t ! j = Some f'"
      unfolding rows_inv_def by blast
    with False * show ?thesis by auto
  qed
  with len show ?thesis
    unfolding rows_inv_def by blast
qed

lemma fit_inv_step:
  assumes "fit_inv c i t" and "realtime_step c i t = (Returns (), t')"
  shows "fit_inv c (Suc i) t'"
proof -
  from realtime_step_Returns [OF assms(2)] obtain v f where
    td: "tr_data t' = (tr_data t)[i := Some f]"
    and br: "(if int i < train_count c
        then trace t' = trace t @ [Volume i v] \<and> clf t' = clf t
             \<and> num_correct t' = num_correct t \<and> accuracy t' = accuracy t
        else if int i = train_count c
        then \<exists>m. clf_obj c (py_slice (tr_data t') tr_shift (train_count c))
                 (py_slice (labels c) 0 (train_count c - tr_shift)) None = Inr m
             \<and> trace t' = trace t @ [Volume i v, Fit i (py_slice (tr_data t') tr_shift (train_count c))
                        (py_slice (labels c) 0 (train_count c - tr_shift)) m]
             \<and> clf t' = Some m \<and> num_correct t' = num_correct t \<and> accuracy t' = accuracy t
        else \<exists>m p l. clf t = Some m \<and> predict c m (Some f) = Inr p
             \<and> py_index (labels c) (int i - tr_shift) = Inr l
             \<and> num_correct t' = (if as_label p = l then num_correct t + 1 else num_correct t)
             \<and> accuracy t' = Some (of_nat (num_correct t') / of_int (int i - train_count c))
             \<and> (if batch_due c i
                then \<exists>m'. clf_obj c (py_slice (tr_data t') (int i - incremental_batch c + tr_shift) (int i))
                      (py_slice (labels c) (int i - incremental_batch c) (int i - tr_shift)) (Some m) = Inr m'
                    \<and> clf t' = Some m'
                    \<and> trace t' = trace t @ [Volume i v, Predict i m (as_label p),
                        Update i (py_slice (tr_data t') (int i - incremental_batch c + tr_shift) (int i))
                          (py_slice (labels c) (int i - incremental_batch c) (int i - tr_shift)) m m']
                else clf t' = Some m \<and> trace t' = trace t @ [Volume i v, Predict i m (as_label p)]))"
    by blast
  consider (collect) "int i < train_count c" | (train) "int i = train_count c" | (test) "train_count c < int i"
    by linarith
  then show ?thesis
  proof cases
    case collect
    with br assms(1) show ?thesis
      by (simp add: fit_inv_def)
  next
    case train
    with assms(1) have old: "filter is_fit (trace t) = []" "predicted (trace t) = []"
      by (simp_all add: fit_inv_def)
    from train br obtain m where
      m: "trace t' = trace t @ [Volume i v, Fit i (py_slice (tr_data t') tr_shift (train_count c))
                        (py_slice (labels c) 0 (train_count c - tr_shift)) m]"
         "clf t' = Some m"
      by auto
    have "Predict j m' q \<notin> set (trace t')" for j m' q
      using predicted_Nil [OF old(2)] m(1) by auto
    with train old m show ?thesis
      by (auto simp: fit_inv_def)
  next
    case test
    with br obtain m where cm: "clf t = Some m" by auto
    with assms(1) test have T0: "0 \<le> train_count c"
      by (auto simp: fit_inv_def split: if_splits)
    with assms(1) test obtain m0 where
      old: "filter is_fit (trace t) =
                  [Fit (nat (train_count c)) (py_slice (tr_data t) tr_shift (train_count c))
                     (py_slice (labels c) 0 (train_count c - tr_shift)) m0]"
           "incremental_batch c \<le> 0 \<longrightarrow>
                     clf t = Some m0 \<and> (\<forall>j m' q. Predict j m' q \<in> set (trace t) \<longrightarrow> m' = m0)"
           "predicted (trace t) = [Suc (nat (train_count c))..<i]"
      by (auto simp: fit_inv_def)
    have sl: "py_slice (tr_data t') tr_shift (train_count c) = py_slice (tr_data t) tr_shift (train_count c)"
      unfolding td using T0 test by (intro py_slice_update) auto
    have fits: "filter is_fit (trace t') = filter is_fit (trace t)"
      using br test by (auto split: if_splits)
    have pred: "predicted (trace t') = predicted (trace t) @ [i]"
      using br test by (auto split: if_splits)
    have up: "[Suc (nat (train_count c))..<i] @ [i] = [Suc (nat (train_count c))..<Suc i]"
      using test T0 by auto
    have nz: "clf t' \<noteq> None"
      using br test by (auto split: if_splits)
    have b0: "clf t' = Some m0 \<and> (\<forall>j m' q. Predict j m' q \<in> set (trace t') \<longrightarrow> m' = m0)"
      if "incremental_batch c \<le> 0"
    proof -
      from that have nd: "\<not> batch_due c i" by (simp add: batch_due_def)
      from that old(2) cm have "m = m0" by simp
      with br test nd cm old(2) that show ?thesis by (auto; blast)
    qed
    show ?thesis
      using T0 test old fits pred up nz b0 sl by (auto simp: fit_inv_def)
  qed
qed


lemma step_collect:
  assumes "realtime_step c i t = (Returns (), t')" and "int i < train_count c"
  shows "\<exists>v f. tr_data t' = (tr_data t)[i := Some f] \<and> trace t' = trace t @ [Volume i v]
     \<and> clf t' = clf t \<and> num_correct t' = num_correct t \<and> accuracy t' = accuracy t"
  using realtime_step_Returns [OF assms(1)] assms(2) by auto

lemma step_train:
  assumes "realtime_step c i t = (Returns (), t')" and "int i = train_count c"
  shows "\<exists>v f m. tr_data t' = (tr_data t)[i := Some f]
     \<and> trace t' = trace t @ [Volume i v, Fit i (py_slice (tr_data t') tr_shift (train_count c))
                        (py_slice (labels c) 0 (train_count c - tr_shift)) m]
     \<and> clf t' = Some m \<and> num_correct t' = num_correct t \<and> accuracy t' = accuracy t"
  using realtime_step_Returns [OF assms(1)] assms(2) by auto

lemma step_test:
  assumes "realtime_step c i t = (Returns (), t')" and "train_count c < int i"
  shows "\<exists>v f m q m'. tr_data t' = (tr_data t)[i := Some f] \<and> clf t = Some m
     \<and> num_correct t' \<le> num_correct t + 1
     \<and> accuracy t' = Some (of_nat (num_correct t') / of_int (int i - train_count c))
     \<and> clf t' = Some m'
     \<and> (if batch_due c i
         then trace t' = trace t @ [Volume i v, Predict i m q,
                   Update i (py_slice (tr_data t') (int i - incremental_batch c + tr_shift) (int i))
                     (py_slice (labels c) (int i - incremental_batch c) (int i - tr_shift)) m m']
         else m' = m \<and> trace t' = trace t @ [Volume i v, Predict i m q])"
proof -
  from realtime_step_Returns [OF assms(1)] assms(2) obtain v f m p l where
    *: "tr_data t' = (tr_data t)[i := Some f]" "clf t = Some m"
       "num_correct t' = (if as_label p = l then num_correct t + 1 else num_correct t)"
       "accuracy t' = Some (of_nat (num_correct t') / of_int (int i - train_count c))"
       "(if batch_due c i
                then \<exists>m'. clf_obj c (py_slice (tr_data t') (int i - incremental_batch c + tr_shift) (int i))
                      (py_slice (labels c) (int i - incremental_batch c) (int i - tr_shift)) (Some m) = Inr m'
                    \<and> clf t' = Some m'
                    \<and> trace t' = trace t @ [Volume i v, Predict i m (as_label p),
                        Update i (py_slice (tr_data t') (int i - incremental_batch c + tr_shift) (int i))
                          (py_slice (labels c) (int i - incremental_batch c) (int i - tr_shift)) m m']
                else clf t' = Some m \<and> trace t' = trace t @ [Volume i v, Predict i m (as_label p)])"
    by auto
  show ?thesis
  proof (cases "batch_due c i")
    case True
    with *(5) obtain m' where "clf t' = Some m'"
      "trace t' = trace t @ [Volume i v, Predict i m (as_label p),
                        Update i (py_slice (tr_data t') (int i - incremental_batch c + tr_shift) (int i))
                          (py_slice (labels c) (int i - incremental_batch c) (int i - tr_shift)) m m']"
      by auto
    with True * show ?thesis
      by (intro exI [of _ v] exI [of _ f] exI [of _ m] exI [of _ "as_label p"] exI [of _ m']) simp
  next
    case False
    with * show ?thesis
      by (intro exI [of _ v] exI [of _ f] exI [of _ m] exI [of _ "as_label p"] exI [of _ m]) simp
  qed
qed

lemma score_inv_step:
  assumes "score_inv c i t" and "realtime_step c i t = (Returns (), t')"
  shows "score_inv c (Suc i) t'"
proof (cases "train_count c < int i")
  case False
  then have "int i < train_count c \<or> int i = train_count c" by linarith
  then have "num_correct t' = num_correct t \<and> accuracy t' = accuracy t"
    using step_collect [OF assms(2)] step_train [OF assms(2)] by auto
  with assms(1) False show ?thesis
    by (auto simp: score_inv_def)
next
  case True
  from step_test [OF assms(2) True] obtain n where
    n: "num_correct t' \<le> num_correct t + 1"
       "accuracy t' = Some (of_nat (num_correct t') / of_int (int i - train_count c))"
    by blast
  from assms(1) True have "int (num_correct t) \<le> int i - 1 - train_count c"
    by (simp add: score_inv_def)
  with n(1) have le: "int (num_correct t') \<le> int i - train_count c" by linarith
  have pos: "(0::rat) < of_int (int i - train_count c)"
    using True by simp
  have "(of_nat (num_correct t') :: rat) = of_int (int (num_correct t'))" by simp
  also have "\<dots> \<le> of_int (int i - train_count c)"
    using le by (simp only: of_int_le_iff)
  finally have "(of_nat (num_correct t') :: rat) / of_int (int i - train_count c) \<le> 1"
    using pos by (simp add: divide_le_eq)
  moreover have "(0::rat) \<le> of_nat (num_correct t') / of_int (int i - train_count c)"
    using pos by (intro divide_nonneg_pos) auto
  ultimately show ?thesis
    using n(2) True le by (auto simp: score_inv_def)
qed

lemma update_inv_step:
  assumes "update_inv c i t" and "realtime_step c i t = (Returns (), t')"
  shows "update_inv c (Suc i) t'"
proof -
  from realtime_step_Returns_frame [OF assms(2)] obtain f where
    td: "tr_data t' = (tr_data t)[i := Some f]" by blast
  have keep: "py_slice (tr_data t') a (int j) = py_slice (tr_data t) a (int j)" if "j \<le> i" for a j
    unfolding td using that by (intro py_slice_update) auto
  have old: "j < Suc i \<and> train_count c < int j \<and> batch_due c j
          \<and> X = py_slice (tr_data t') (int j - incremental_batch c + tr_shift) (int j)
          \<and> y = py_slice (labels c) (int j - incremental_batch c) (int j - tr_shift)"
    if "Update j X y m m' \<in> set (trace t)" for j X y m m'
  proof -
    from assms(1) that have "j < i \<and> train_count c < int j \<and> batch_due c j
          \<and> X = py_slice (tr_data t) (int j - incremental_batch c + tr_shift) (int j)
          \<and> y = py_slice (labels c) (int j - incremental_batch c) (int j - tr_shift)"
      unfolding update_inv_def by blast
    then show ?thesis using keep [of j] by simp
  qed
  have more: "\<exists>X y m m'. Update j X y m m' \<in> set (trace t)"
    if "j < i" "train_count c < int j" "batch_due c j" for j
    using assms(1) that unfolding update_inv_def by blast
  have quiet: "update_inv c (Suc i) t'"
    if sub: "\<And>j X y m m'. Update j X y m m' \<in> set (trace t') \<Longrightarrow> Update j X y m m' \<in> set (trace t)"
      and grow: "set (trace t) \<subseteq> set (trace t')"
      and nodue: "\<not> (train_count c < int i \<and> batch_due c i)"
    unfolding update_inv_def
  proof (rule conjI; intro allI impI)
    fix j X y m m'
    assume "Update j X y m m' \<in> set (trace t')"
    then have "Update j X y m m' \<in> set (trace t)" by (rule sub)
    then show "j < Suc i \<and> train_count c < int j \<and> batch_due c j
          \<and> X = py_slice (tr_data t') (int j - incremental_batch c + tr_shift) (int j)
          \<and> y = py_slice (labels c) (int j - incremental_batch c) (int j - tr_shift)"
      by (rule old)
  next
    fix j
    assume j: "j < Suc i" "train_count c < int j" "batch_due c j"
    with nodue have "j \<noteq> i" by blast
    with j(1) have "j < i" by simp
    from more [OF this j(2,3)] grow
    show "\<exists>X y m m'. Update j X y m m' \<in> set (trace t')" by blast
  qed
  show ?thesis
  proof (cases "train_count c < int i")
    case False
    then have "int i < train_count c \<or> int i = train_count c" by linarith
    then have "\<exists>es. trace t' = trace t @ es \<and> (\<forall>e\<in>set es. \<not> is_update e)"
      using step_collect [OF assms(2)] step_train [OF assms(2)] by auto
    then obtain es where es: "trace t' = trace t @ es" "\<forall>e\<in>set es. \<not> is_update e" by blast
    have sub: "Update j X y m m' \<in> set (trace t)" if "Update j X y m m' \<in> set (trace t')" for j X y m m'
      using that es by auto
    show ?thesis
    proof (rule quiet)
      show "set (trace t) \<subseteq> set (trace t')" using es(1) by auto
      show "\<not> (train_count c < int i \<and> batch_due c i)" using False by simp
    qed (rule sub)
  next
    case True
    from step_test [OF assms(2) True] obtain v f' m q m' where
      br: "(if batch_due c i
         then trace t' = trace t @ [Volume i v, Predict i m q,
                   Update i (py_slice (tr_data t') (int i - incremental_batch c + tr_shift) (int i))
                     (py_slice (labels c) (int i - incremental_batch c) (int i - tr_shift)) m m']
         else m' = m \<and> trace t' = trace t @ [Volume i v, Predict i m q])"
      by blast
    show ?thesis
    proof (cases "batch_due c i")
      case due: True
      with br have tr: "trace t' = trace t @ [Volume i v, Predict i m q,
                   Update i (py_slice (tr_data t') (int i - incremental_batch c + tr_shift) (int i))
                     (py_slice (labels c) (int i - incremental_batch c) (int i - tr_shift)) m m']"
        by simp
      show ?thesis
        unfolding update_inv_def
      proof (rule conjI; intro allI impI)
        fix j X y ma mb
        assume "Update j X y ma mb \<in> set (trace t')"
        with tr have "Update j X y ma mb \<in> set (trace t)
           \<or> (j = i \<and> X = py_slice (tr_data t') (int i - incremental_batch c + tr_shift) (int i)
              \<and> y = py_slice (labels c) (int i - incremental_batch c) (int i - tr_shift))"
          by auto
        with old [of j X y ma mb] True due
        show "j < Suc i \<and> train_count c < int j \<and> batch_due c j
          \<and> X = py_slice (tr_data t') (int j - incremental_batch c + tr_shift) (int j)
          \<and> y = py_slice (labels c) (int j - incremental_batch c) (int j - tr_shift)"
          by auto
      next
        fix j
        assume "j < Suc i" "train_count c < int j" "batch_due c j"
        then show "\<exists>X y m m'. Update j X y m m' \<in> set (trace t')"
          using more [of j] tr by (cases "j = i") auto
      qed
    next
      case nd: False
      with br have tr: "trace t' = trace t @ [Volume i v, Predict i m q]" by simp
      have sub: "Update j X y m m' \<in> set (trace t)" if "Update j X y m m' \<in> set (trace t')" for j X y m m'
        using that tr by auto
      show ?thesis
      proof (rule quiet)
        show "set (trace t) \<subseteq> set (trace t')" using tr by auto
        show "\<not> (train_count c < int i \<and> batch_due c i)" using nd by simp
      qed (rule sub)
    qed
  qed
qed

lemma live_append [simp]: "live (tr @ es) = foldl live_after (live tr) es"
  by (simp add: live_def)

lemma live_Nil [simp]: "live [] = None"
  by (simp add: live_def)

lemma ordered_Nil [simp]: "ordered []"
  by (simp add: ordered_def)

lemma ordered_snoc:
  assumes "ordered tr"
    and "case e of Predict j m q \<Rightarrow> live tr = Some m
         | Update j X y m m' \<Rightarrow> tr \<noteq> [] \<and> (\<exists>q. last tr = Predict j m q)
         | _ \<Rightarrow> True"
  shows "ordered (tr @ [e])"
  unfolding ordered_def
proof (intro allI impI)
  fix n
  assume n: "n < length (tr @ [e])"
  show "case (tr @ [e]) ! n of
          Predict j m q \<Rightarrow> live (take n (tr @ [e])) = Some m
        | Update j X y m m' \<Rightarrow> 0 < n \<and> (\<exists>q. (tr @ [e]) ! (n - 1) = Predict j m q)
        | _ \<Rightarrow> True"
  proof (cases "n < length tr")
    case True
    moreover from True have "n - 1 < length tr" by simp
    ultimately have "(tr @ [e]) ! n = tr ! n" "take n (tr @ [e]) = take n tr"
      "(tr @ [e]) ! (n - 1) = tr ! (n - 1)"
      by (simp_all add: nth_append)
    with assms(1) True show ?thesis
      unfolding ordered_def by (auto split: event.splits)
  next
    case False
    with n have eq: "n = length tr" by simp
    then have "(tr @ [e]) ! n = e" "take n (tr @ [e]) = tr" by simp_all
    moreover have "(tr @ [e]) ! (n - 1) = last tr" if "tr \<noteq> []"
      using that eq by (simp add: nth_append last_conv_nth)
    ultimately show ?thesis
      using assms(2) eq by (auto split: event.splits)
  qed
qed

lemma order_inv_append1:
  assumes "order_inv t" and "trace t' = trace t @ [Volume i v]" and "clf t' = clf t"
  shows "order_inv t'"
  using assms ordered_snoc [of "trace t" "Volume i v"]
  by (simp add: order_inv_def)

lemma order_inv_step:
  assumes "order_inv t" and "realtime_step c i t = (r, t')"
  shows "order_inv t'"
proof (cases "r = Returns ()")
  case True
  with assms(2) have st: "realtime_step c i t = (Returns (), t')" by simp
  consider (collect) "int i < train_count c" | (train) "int i = train_count c" | (test) "train_count c < int i"
    by linarith
  then show ?thesis
  proof cases
    case collect
    from step_collect [OF st collect] assms(1) show ?thesis
      by (auto intro: order_inv_append1)
  next
    case train
    from step_train [OF st train] obtain v X y m where
      tr: "trace t' = (trace t @ [Volume i v]) @ [Fit i X y m]" and cl: "clf t' = Some m"
      by auto
    have "ordered (trace t @ [Volume i v])"
      by (rule ordered_snoc) (use assms(1) in \<open>simp_all add: order_inv_def\<close>)
    then have "ordered ((trace t @ [Volume i v]) @ [Fit i X y m])"
      by (rule ordered_snoc) simp
    with tr cl show ?thesis
      by (simp add: order_inv_def)
  next
    case test
    define X where "X = py_slice (tr_data t') (int i - incremental_batch c + tr_shift) (int i)"
    define y where "y = py_slice (labels c) (int i - incremental_batch c) (int i - tr_shift)"
    from step_test [OF st test] obtain v m q m' where
      cm: "clf t = Some m" and cl: "clf t' = Some m'"
      and br0: "(if batch_due c i
         then trace t' = trace t @ [Volume i v, Predict i m q, Update i X y m m']
         else m' = m \<and> trace t' = trace t @ [Volume i v, Predict i m q])"
      unfolding X_def y_def by blast
    from br0 have br: "(if batch_due c i
         then trace t' = ((trace t @ [Volume i v]) @ [Predict i m q]) @ [Update i X y m m']
         else m' = m \<and> trace t' = (trace t @ [Volume i v]) @ [Predict i m q])"
      by simp
    have lv: "live (trace t) = Some m"
      using assms(1) cm by (simp add: order_inv_def)
    have o1: "ordered (trace t @ [Volume i v])"
      by (rule ordered_snoc) (use assms(1) in \<open>simp_all add: order_inv_def\<close>)
    have o2: "ordered ((trace t @ [Volume i v]) @ [Predict i m q])"
      by (rule ordered_snoc) (use o1 lv in simp_all)
    have o3: "ordered (((trace t @ [Volume i v]) @ [Predict i m q]) @ [Update i X y m m'])"
      by (rule ordered_snoc) (use o2 in simp_all)
    show ?thesis
      using br o2 o3 cl lv by (cases "batch_due c i") (simp_all add: order_inv_def)
  qed
next
  case False
  from realtime_step_fails [OF assms(2) False] have
    cl: "clf t' = clf t" and
    tr: "trace t' = trace t \<or> (\<exists>v. trace t' = trace t @ [Volume i v])
          \<or> (\<exists>v m q. train_count c < int i \<and> clf t = Some m
                \<and> trace t' = (trace t @ [Volume i v]) @ [Predict i m q])"
    by auto
  from tr show ?thesis
  proof (elim disjE exE conjE)
    assume "trace t' = trace t"
    with assms(1) cl show ?thesis by (simp add: order_inv_def)
  next
    fix v assume "trace t' = trace t @ [Volume i v]"
    with assms(1) cl show ?thesis by (auto intro: order_inv_append1)
  next
    fix v m q
    assume cm: "clf t = Some m" and t': "trace t' = (trace t @ [Volume i v]) @ [Predict i m q]"
    have lv: "live (trace t) = Some m"
      using assms(1) cm by (simp add: order_inv_def)
    have o1: "ordered (trace t @ [Volume i v])"
      by (rule ordered_snoc) (use assms(1) in \<open>simp_all add: order_inv_def\<close>)
    have o2: "ordered ((trace t @ [Volume i v]) @ [Predict i m q])"
      by (rule ordered_snoc) (use o1 lv in simp_all)
    with t' cl cm lv show ?thesis
      by (simp add: order_inv_def)
  qed
qed

lemma order_inv_loop:
  assumes "realtime_loop c i t = (r, t')" and "order_inv t"
  shows "order_inv t'"
proof -
  from realtime_loop_rule_aux [of c i t r t' "\<lambda>j u. order_inv u", OF assms]
  show ?thesis
    using order_inv_step by blast
qed

section \<open>Runs of the controller\<close>

lemma init_invariants:
  "rows_inv c 0 (init_state c w obs)" "fit_inv c 0 (init_state c w obs)"
  "score_inv c 0 (init_state c w obs)" "update_inv c 0 (init_state c w obs)"
  "order_inv (init_state c w obs)"
  by (simp_all add: rows_inv_def fit_inv_def score_inv_def update_inv_def order_inv_def init_state_def)

lemma loop_invariants:
  assumes "realtime_loop c 0 (init_state c w obs) = (Returns (), s)"
  shows "rows_inv c (length (labels c)) s \<and> fit_inv c (length (labels c)) s
       \<and> score_inv c (length (labels c)) s \<and> update_inv c (length (labels c)) s"
proof -
  let ?I = "\<lambda>j u. rows_inv c j u \<and> fit_inv c j u \<and> score_inv c j u \<and> update_inv c j u"
  have "?I 0 (init_state c w obs)"
    by (simp add: init_invariants)
  from realtime_loop_rule [of c 0 "init_state c w obs" "Returns ()" s ?I, OF assms this]
  show ?thesis
    using rows_inv_step fit_inv_step score_inv_step update_inv_step by blast
qed

lemma observers_loop:
  assumes "realtime_loop c i t = (r, t')"
  shows "observers t' = observers t"
proof -
  have "observers u' = observers t" if "observers u = observers t" "realtime_step c j u = (x, u')" for j u u' x
  proof (cases "x = Returns ()")
    case True
    with that realtime_step_Returns_frame [of c j u u'] show ?thesis by auto
  next
    case False
    with that realtime_step_fails [of c j u x u'] show ?thesis by auto
  qed
  with realtime_loop_rule_aux [of c i t r t' "\<lambda>j u. observers u = observers t", OF assms]
  show ?thesis by blast
qed

lemma realtime_completes:
  assumes "completes c w obs"
  obtains s where "realtime_loop c 0 (init_state c w obs) = (Returns (), s)"
    and "snd (realtime c w obs) = s\<lparr>observers := (observers s)[length obs := Stopped]\<rparr>"
    and "fst (realtime c w obs) =
           (case accuracy s of None \<Rightarrow> Raises (UnboundLocalError ''accuracy'') | Some a \<Rightarrow> Returns a)"
proof -
  obtain r s where rs: "realtime_loop c 0 (init_state c w obs) = (r, s)"
    by (cases "realtime_loop c 0 (init_state c w obs)")
  with assms have "r = Returns ()" by (simp add: completes_def)
  with rs show ?thesis
    by (intro that [of s]) (auto simp: realtime_def Let_def split: option.splits)
qed

lemma realtime_Returns:
  assumes "fst (realtime c w obs) = Returns a"
  shows "completes c w obs \<and> accuracy (snd (realtime c w obs)) = Some a"
  using assms
  by (auto simp: realtime_def completes_def Let_def split: prod.splits outcome.splits option.splits)

lemma invariants_observers [simp]:
  "rows_inv c n (s\<lparr>observers := x\<rparr>) = rows_inv c n s"
  "fit_inv c n (s\<lparr>observers := x\<rparr>) = fit_inv c n s"
  "score_inv c n (s\<lparr>observers := x\<rparr>) = score_inv c n s"
  "update_inv c n (s\<lparr>observers := x\<rparr>) = update_inv c n s"
  by (simp_all add: rows_inv_def fit_inv_def score_inv_def update_inv_def)

lemma realtime_invariants:
  assumes "completes c w obs"
  shows "rows_inv c (length (labels c)) (snd (realtime c w obs))"
    and "fit_inv c (length (labels c)) (snd (realtime c w obs))"
    and "score_inv c (length (labels c)) (snd (realtime c w obs))"
    and "update_inv c (length (labels c)) (snd (realtime c w obs))"
proof -
  from realtime_completes [OF assms] obtain s where
    s: "realtime_loop c 0 (init_state c w obs) = (Returns (), s)"
       "snd (realtime c w obs) = s\<lparr>observers := (observers s)[length obs := Stopped]\<rparr>"
    by blast
  from loop_invariants [OF s(1)]
  show "rows_inv c (length (labels c)) (snd (realtime c w obs))"
    and "fit_inv c (length (labels c)) (snd (realtime c w obs))"
    and "score_inv c (length (labels c)) (snd (realtime c w obs))"
    and "update_inv c (length (labels c)) (snd (realtime c w obs))"
    unfolding s(2) by simp_all
qed

lemma realtime_order_inv: "order_inv (snd (realtime c w obs))"
proof -
  obtain r s where rs: "realtime_loop c 0 (init_state c w obs) = (r, s)"
    by (cases "realtime_loop c 0 (init_state c w obs)")
  from order_inv_loop [OF rs init_invariants(5)] have "order_inv s" .
  moreover have "trace (snd (realtime c w obs)) = trace s \<and> clf (snd (realtime c w obs)) = clf s"
    using rs by (auto simp: realtime_def Let_def split: outcome.splits option.splits)
  ultimately show ?thesis
    by (simp add: order_inv_def)
qed

lemma fit_inv_after:
  assumes "fit_inv c n s" and "0 \<le> train_count c" and "train_count c < int n"
  shows "\<exists>m. filter is_fit (trace s) =
                  [Fit (nat (train_count c)) (py_slice (tr_data s) tr_shift (train_count c))
                     (py_slice (labels c) 0 (train_count c - tr_shift)) m]
                \<and> (incremental_batch c \<le> 0 \<longrightarrow>
                     clf s = Some m \<and> (\<forall>j m' q. Predict j m' q \<in> set (trace s) \<longrightarrow> m' = m))"
    and "clf s \<noteq> None" and "predicted (trace s) = [Suc (nat (train_count c))..<n]"
  using assms by (simp_all add: fit_inv_def)

lemma loop_outcome:
  assumes "realtime_loop c 0 (init_state c w obs) = (r, s)"
  shows "(r = Returns () \<and> rows_inv c (length (labels c)) s \<and> fit_inv c (length (labels c)) s
            \<and> score_inv c (length (labels c)) s \<and> update_inv c (length (labels c)) s)
       \<or> (r \<noteq> Returns () \<and> (\<exists>j u. j < length (labels c) \<and> rows_inv c j u \<and> fit_inv c j u
            \<and> score_inv c j u \<and> update_inv c j u \<and> realtime_step c j u = (r, s)))"
proof -
  let ?I = "\<lambda>j u. rows_inv c j u \<and> fit_inv c j u \<and> score_inv c j u \<and> update_inv c j u"
  have "?I 0 (init_state c w obs)"
    by (simp add: init_invariants)
  from realtime_loop_rule [of c 0 "init_state c w obs" r s ?I, OF assms this]
  show ?thesis
    using rows_inv_step fit_inv_step score_inv_step update_inv_step by blast
qed

lemma is_update_cases: "is_update e \<Longrightarrow> \<exists>j X y m m'. e = Update j X y m m'"
  by (cases e) simp_all

lemma no_update:
  assumes "update_inv c j u" and "incremental_batch c \<le> 0"
  shows "filter is_update (trace u) = []"
proof -
  have "\<not> is_update e" if "e \<in> set (trace u)" for e
  proof
    assume "is_update e"
    then obtain k X y m m' where "e = Update k X y m m'"
      using is_update_cases by blast
    with that assms(1) have "batch_due c k"
      unfolding update_inv_def by blast
    with assms(2) show False by (simp add: batch_due_def)
  qed
  then show ?thesis by (simp add: filter_empty_conv)
qed

lemma frozen_of_fit_inv:
  assumes "fit_inv c j u" and "incremental_batch c \<le> 0"
  shows "frozen u"
proof (cases "0 \<le> train_count c \<and> train_count c < int j")
  case True
  then have "0 \<le> train_count c" "train_count c < int j" by simp_all
  from fit_inv_after(1) [OF assms(1) this] assms(2) obtain m0 where
    "filter is_fit (trace u) =
                  [Fit (nat (train_count c)) (py_slice (tr_data u) tr_shift (train_count c))
                     (py_slice (labels c) 0 (train_count c - tr_shift)) m0]"
    "clf u = Some m0" "\<forall>j m' q. Predict j m' q \<in> set (trace u) \<longrightarrow> m' = m0"
    by blast
  then show ?thesis
    unfolding frozen_def by auto
next
  case False
  with assms(1) have "clf u = None" "predicted (trace u) = []"
    by (simp_all add: fit_inv_def)
  with predicted_Nil [of "trace u"] show ?thesis
    unfolding frozen_def by auto
qed

lemma frozen_fails:
  assumes "frozen u" and "realtime_step c j u = (r, t')" and "r \<noteq> Returns ()"
  shows "frozen t' \<and> filter is_update (trace t') = filter is_update (trace u)"
proof -
  from realtime_step_fails [OF assms(2,3)] have
    cl: "clf t' = clf u" and
    tr: "trace t' = trace u \<or> (\<exists>v. trace t' = trace u @ [Volume j v])
          \<or> (\<exists>v m q. clf u = Some m \<and> trace t' = trace u @ [Volume j v, Predict j m q])"
    by auto
  from tr show ?thesis
  proof (elim disjE exE conjE)
    assume "trace t' = trace u"
    with assms(1) cl show ?thesis by (simp add: frozen_def)
  next
    fix v assume "trace t' = trace u @ [Volume j v]"
    with assms(1) cl show ?thesis by (simp add: frozen_def)
  next
    fix v m q
    assume "clf u = Some m" "trace t' = trace u @ [Volume j v, Predict j m q]"
    with assms(1) cl show ?thesis by (auto simp: frozen_def)
  qed
qed

lemma realtime_state:
  "\<exists>r s. realtime_loop c 0 (init_state c w obs) = (r, s)
     \<and> trace (snd (realtime c w obs)) = trace s \<and> clf (snd (realtime c w obs)) = clf s
     \<and> tr_data (snd (realtime c w obs)) = tr_data s"
proof -
  obtain r s where rs: "realtime_loop c 0 (init_state c w obs) = (r, s)"
    by (cases "realtime_loop c 0 (init_state c w obs)")
  then show ?thesis
    by (auto simp: realtime_def Let_def split: outcome.splits option.splits)
qed

lemma live_take_Suc:
  assumes "n < length tr"
  shows "live (take (Suc n) tr) = live_after (live (take n tr)) (tr ! n)"
  using assms by (simp add: take_Suc_conv_app_nth)

lemma update_has_prediction:
  assumes "ordered tr" and "Update j X y m m' \<in> set tr"
  shows "\<exists>q. Predict j m q \<in> set tr"
proof -
  from assms(2) obtain n where n: "n < length tr" "tr ! n = Update j X y m m'"
    by (auto simp: in_set_conv_nth)
  with assms(1) have "0 < n" and "\<exists>q. tr ! (n - 1) = Predict j m q"
    unfolding ordered_def by (auto split: event.splits)
  then obtain q where "tr ! (n - 1) = Predict j m q" by blast
  moreover from n(1) have "n - 1 < length tr" by simp
  ultimately have "Predict j m q \<in> set tr"
    by (metis nth_mem)
  then show ?thesis ..
qed

lemma batch_due_window:
  assumes "batch_due c j" and "train_count c < int j"
  shows "train_count c \<le> int j - incremental_batch c"
proof -
  from assms(1) have b: "0 < incremental_batch c" and "(int j - train_count c) mod incremental_batch c = 0"
    by (simp_all add: batch_due_def)
  then have "incremental_batch c dvd int j - train_count c" by presburger
  moreover have "0 < int j - train_count c" using assms(2) by simp
  ultimately have "incremental_batch c \<le> int j - train_count c"
    by (rule zdvd_imp_le)
  then show ?thesis by simp
qed

lemma realtime_accuracy:
  "\<exists>r s. realtime_loop c 0 (init_state c w obs) = (r, s)
     \<and> accuracy (snd (realtime c w obs)) = accuracy s"
proof -
  obtain r s where rs: "realtime_loop c 0 (init_state c w obs) = (r, s)"
    by (cases "realtime_loop c 0 (init_state c w obs)")
  then show ?thesis
    by (auto simp: realtime_def Let_def split: outcome.splits option.splits)
qed

lemma never_assigned:
  assumes "realtime_loop c 0 (init_state c w obs) = (r, s)"
    and "int (length (labels c)) \<le> train_count c + 1"
  shows "accuracy s = None"
    and "int (length (labels c)) \<le> train_count c \<Longrightarrow> clf s = None"
proof -
  from loop_outcome [OF assms(1)]
  have "accuracy s = None \<and> (int (length (labels c)) \<le> train_count c \<longrightarrow> clf s = None)"
  proof (elim disjE conjE exE)
    assume "fit_inv c (length (labels c)) s" "score_inv c (length (labels c)) s"
    with assms(2) show ?thesis
      by (cases "accuracy s") (auto simp: score_inv_def fit_inv_def)
  next
    fix j u
    assume f: "r \<noteq> Returns ()" "j < length (labels c)" "fit_inv c j u" "score_inv c j u"
      "realtime_step c j u = (r, s)"
    from f(2) assms(2) have jT: "int j \<le> train_count c" by linarith
    from f(4) jT have au: "accuracy u = None"
      by (cases "accuracy u") (auto simp: score_inv_def)
    from realtime_step_fails [OF f(5) f(1)] jT have "accuracy s = accuracy u" "clf s = clf u"
      by auto
    moreover have "clf u = None" if "int (length (labels c)) \<le> train_count c"
      using f(3) f(2) that by (simp add: fit_inv_def)
    ultimately show ?thesis using au by simp
  qed
  then show "accuracy s = None"
    and "int (length (labels c)) \<le> train_count c \<Longrightarrow> clf s = None"
    by simp_all
qed

section \<open>The trace records the calls\<close>

lemma classify_fails_calls:
  assumes "classify c i t = (r, t')" and "r \<noteq> Returns ()"
  shows "tr_data t' = tr_data t
       \<and> (trace t' = trace t
          \<or> (\<exists>m row p. clf t = Some m \<and> py_index (tr_data t) (int i) = Inr row
                \<and> predict c m row = Inr p \<and> trace t' = trace t @ [Predict i m (as_label p)]))"
proof (cases "clf t")
  case None
  with assms show ?thesis by (auto simp add: classify_def)
next
  case (Some m)
  note m = this
  show ?thesis
  proof (cases "py_index (tr_data t) (int i)")
    case (Inl e)
    with assms m show ?thesis by (auto simp add: classify_def)
  next
    case (Inr row)
    note row = this
    show ?thesis
    proof (cases "predict c m row")
      case (Inl e)
      with assms m row show ?thesis by (auto simp add: classify_def)
    next
      case (Inr p)
      note p = this
      show ?thesis
      proof (cases "py_index (labels c) (int i - tr_shift)")
        case (Inl e)
        with assms m row p show ?thesis by (auto simp add: classify_def Let_def)
      next
        case (Inr l)
        with assms m row p show ?thesis
          by (auto simp add: classify_def Let_def split: sum.splits if_splits)
      qed
    qed
  qed
qed

lemma realtime_step_fails_calls:
  assumes "realtime_step c i t = (r, t')" and "r \<noteq> Returns ()"
  shows "(tr_data t' = tr_data t \<and> trace t' = trace t)
       \<or> (\<exists>v. tr_data t' = tr_data t \<and> trace t' = trace t @ [Volume i v])
       \<or> (\<exists>v f. preprocess_vol c v (mask_arr c) = Inr f \<and> i < length (tr_data t)
             \<and> tr_data t' = (tr_data t)[i := Some f] \<and> trace t' = trace t @ [Volume i v])
       \<or> (\<exists>v f m p. preprocess_vol c v (mask_arr c) = Inr f \<and> i < length (tr_data t)
             \<and> tr_data t' = (tr_data t)[i := Some f] \<and> clf t = Some m
             \<and> predict c m (Some f) = Inr p
             \<and> trace t' = trace t @ [Volume i v, Predict i m (as_label p)])"
proof (cases "receive c i t")
  case (Pair r1 t1)
  show ?thesis
  proof (cases "r1 = Returns ()")
    case False
    with Pair assms have "r = r1" "t' = t1"
      by (auto simp: realtime_step_def split: outcome.splits)
    with receive_fails [OF Pair False] show ?thesis by auto
  next
    case True
    with Pair have r: "receive c i t = (Returns (), t1)" by simp
    from receive_Returns [OF r] obtain v f where
      rc: "i < length (tr_data t)" "preprocess_vol c v (mask_arr c) = Inr f"
        "trace t1 = trace t @ [Volume i v]" "tr_data t1 = (tr_data t)[i := Some f]" "clf t1 = clf t"
      by blast
    from assms r have rest: "(if int i < train_count c then (Returns (), t1)
          else if int i = train_count c then train c i t1
          else classify c i t1) = (r, t')"
      by (simp add: realtime_step_def)
    have goal: ?thesis
      if "tr_data t' = tr_data t1"
        and "trace t' = trace t1
          \<or> (\<exists>m row p. clf t1 = Some m \<and> py_index (tr_data t1) (int i) = Inr row
                \<and> predict c m row = Inr p \<and> trace t' = trace t1 @ [Predict i m (as_label p)])"
    proof -
      have nth: "py_index (tr_data t1) (int i) = Inr (Some f)"
        using rc(1,4) by (simp add: py_index_nth)
      from that(1) rc(4) have td: "tr_data t' = (tr_data t)[i := Some f]" by simp
      from that(2) show ?thesis
      proof
        assume "trace t' = trace t1"
        with rc(3) have "trace t' = trace t @ [Volume i v]" by simp
        with rc(1,2) td have "\<exists>v f. preprocess_vol c v (mask_arr c) = Inr f \<and> i < length (tr_data t)
             \<and> tr_data t' = (tr_data t)[i := Some f] \<and> trace t' = trace t @ [Volume i v]"
          by blast
        then show ?thesis by blast
      next
        assume "\<exists>m row p. clf t1 = Some m \<and> py_index (tr_data t1) (int i) = Inr row
                \<and> predict c m row = Inr p \<and> trace t' = trace t1 @ [Predict i m (as_label p)]"
        then obtain m row p where "clf t1 = Some m" "py_index (tr_data t1) (int i) = Inr row"
          "predict c m row = Inr p" "trace t' = trace t1 @ [Predict i m (as_label p)]"
          by blast
        with nth rc(3,5) have "clf t = Some m" "predict c m (Some f) = Inr p"
          "trace t' = trace t @ [Volume i v, Predict i m (as_label p)]"
          by simp_all
        with rc(1,2) td have "\<exists>v f m p. preprocess_vol c v (mask_arr c) = Inr f \<and> i < length (tr_data t)
             \<and> tr_data t' = (tr_data t)[i := Some f] \<and> clf t = Some m
             \<and> predict c m (Some f) = Inr p
             \<and> trace t' = trace t @ [Volume i v, Predict i m (as_label p)]"
          by blast
        then show ?thesis by blast
      qed
    qed
    show ?thesis
    proof (cases "int i < train_count c")
      case True
      with rest assms(2) show ?thesis by simp
    next
      case False
      note nlt = this
      show ?thesis
      proof (cases "int i = train_count c")
        case True
        with rest have "train c i t1 = (r, t')" by simp
        from train_fails [OF this assms(2)] show ?thesis by (intro goal) simp_all
      next
        case False
        with nlt rest have "classify c i t1 = (r, t')" by simp
        from classify_fails_calls [OF this assms(2)] show ?thesis by (intro goal) simp_all
      qed
    qed
  qed
qed

lemma calls_invI:
  assumes "\<And>k X y m. Fit k X y m \<in> set (trace t) \<Longrightarrow> clf_obj c X y None = Inr m"
    and "\<And>k X y m m'. Update k X y m m' \<in> set (trace t) \<Longrightarrow> clf_obj c X y (Some m) = Inr m'"
    and "\<And>k m q. Predict k m q \<in> set (trace t) \<Longrightarrow>
            k < i \<and> (\<exists>v f p. Volume k v \<in> set (trace t) \<and> preprocess_vol c v (mask_arr c) = Inr f
                       \<and> tr_data t ! k = Some f \<and> predict c m (Some f) = Inr p \<and> q = as_label p)"
  shows "calls_inv c i t"
  using assms unfolding calls_inv_def by blast

lemma calls_inv_step:
  assumes "calls_inv c i t" and "realtime_step c i t = (r, t')"
  shows "calls_inv c (Suc i) t'"
proof -
  from assms(1) have
    oF: "\<And>k X y m. Fit k X y m \<in> set (trace t) \<Longrightarrow> clf_obj c X y None = Inr m" and
    oU: "\<And>k X y m m'. Update k X y m m' \<in> set (trace t) \<Longrightarrow> clf_obj c X y (Some m) = Inr m'" and
    oP: "\<And>k m q. Predict k m q \<in> set (trace t) \<Longrightarrow>
            k < i \<and> (\<exists>v f p. Volume k v \<in> set (trace t) \<and> preprocess_vol c v (mask_arr c) = Inr f
                       \<and> tr_data t ! k = Some f \<and> predict c m (Some f) = Inr p \<and> q = as_label p)"
    unfolding calls_inv_def by blast+
  have keep: "k < Suc i \<and> (\<exists>v f p. Volume k v \<in> set (trace t') \<and> preprocess_vol c v (mask_arr c) = Inr f
                       \<and> tr_data t' ! k = Some f \<and> predict c m (Some f) = Inr p \<and> q = as_label p)"
    if "Predict k m q \<in> set (trace t)" "set (trace t) \<subseteq> set (trace t')"
      "tr_data t' = tr_data t \<or> (\<exists>f. tr_data t' = (tr_data t)[i := f])" for k m q
  proof -
    from oP [OF that(1)] obtain v f p where k: "k < i" and
      *: "Volume k v \<in> set (trace t)" "preprocess_vol c v (mask_arr c) = Inr f"
         "tr_data t ! k = Some f" "predict c m (Some f) = Inr p" "q = as_label p"
      by blast
    from that(3) k have "tr_data t' ! k = tr_data t ! k" by auto
    with * k that(2) show ?thesis by auto
  qed
  have fresh: "Suc i > i \<and> (\<exists>v' f' p'. Volume i v' \<in> set (trace t') \<and> preprocess_vol c v' (mask_arr c) = Inr f'
                       \<and> tr_data t' ! i = Some f' \<and> predict c m (Some f') = Inr p' \<and> as_label p = as_label p')"
    if "Volume i v \<in> set (trace t')" "preprocess_vol c v (mask_arr c) = Inr f" "i < length (tr_data t)"
       "tr_data t' = (tr_data t)[i := Some f]" "predict c m (Some f) = Inr p" for v f m p
    using that by auto
  show ?thesis
  proof (cases "r = Returns ()")
    case False
    from realtime_step_fails_calls [OF assms(2) False] show ?thesis
    proof (elim disjE conjE exE)
      assume "tr_data t' = tr_data t" "trace t' = trace t"
      with assms(1) show ?thesis
        unfolding calls_inv_def by (auto dest: oP)
    next
      fix v assume a: "tr_data t' = tr_data t" "trace t' = trace t @ [Volume i v]"
      show ?thesis
        proof (rule calls_invI)
        fix k X y m assume "Fit k X y m \<in> set (trace t')"
        with a oF show "clf_obj c X y None = Inr m" by auto
      next
        fix k X y m m' assume "Update k X y m m' \<in> set (trace t')"
        with a oU show "clf_obj c X y (Some m) = Inr m'" by auto
      next
        fix k m q assume "Predict k m q \<in> set (trace t')"
        with a have "Predict k m q \<in> set (trace t)" by auto
        from keep [OF this] a
        show "k < Suc i \<and> (\<exists>v f p. Volume k v \<in> set (trace t') \<and> preprocess_vol c v (mask_arr c) = Inr f
                       \<and> tr_data t' ! k = Some f \<and> predict c m (Some f) = Inr p \<and> q = as_label p)"
          by auto
      qed
    next
      fix v f assume a: "preprocess_vol c v (mask_arr c) = Inr f" "i < length (tr_data t)"
        "tr_data t' = (tr_data t)[i := Some f]" "trace t' = trace t @ [Volume i v]"
      show ?thesis
        proof (rule calls_invI)
        fix k X y m assume "Fit k X y m \<in> set (trace t')"
        with a oF show "clf_obj c X y None = Inr m" by auto
      next
        fix k X y m m' assume "Update k X y m m' \<in> set (trace t')"
        with a oU show "clf_obj c X y (Some m) = Inr m'" by auto
      next
        fix k m q assume "Predict k m q \<in> set (trace t')"
        with a have "Predict k m q \<in> set (trace t)" by auto
        from keep [OF this] a
        show "k < Suc i \<and> (\<exists>v f p. Volume k v \<in> set (trace t') \<and> preprocess_vol c v (mask_arr c) = Inr f
                       \<and> tr_data t' ! k = Some f \<and> predict c m (Some f) = Inr p \<and> q = as_label p)"
          by auto
      qed
    next
      fix v f m p assume a: "preprocess_vol c v (mask_arr c) = Inr f" "i < length (tr_data t)"
        "tr_data t' = (tr_data t)[i := Some f]" "clf t = Some m" "predict c m (Some f) = Inr p"
        "trace t' = trace t @ [Volume i v, Predict i m (as_label p)]"
      show ?thesis
        proof (rule calls_invI)
        fix k X y m assume "Fit k X y m \<in> set (trace t')"
        with a oF show "clf_obj c X y None = Inr m" by auto
      next
        fix k X y m m' assume "Update k X y m m' \<in> set (trace t')"
        with a oU show "clf_obj c X y (Some m) = Inr m'" by auto
      next
        fix k ma q assume "Predict k ma q \<in> set (trace t')"
        with a have "Predict k ma q \<in> set (trace t) \<or> (k = i \<and> ma = m \<and> q = as_label p)" by auto
        then show "k < Suc i \<and> (\<exists>v f p. Volume k v \<in> set (trace t') \<and> preprocess_vol c v (mask_arr c) = Inr f
                       \<and> tr_data t' ! k = Some f \<and> predict c ma (Some f) = Inr p \<and> q = as_label p)"
        proof
          assume "Predict k ma q \<in> set (trace t)"
          from keep [OF this] a show ?thesis by auto
        next
          assume "k = i \<and> ma = m \<and> q = as_label p"
          with fresh [of v f m p] a show ?thesis by auto
        qed
      qed
    qed
  next
    case True
    with assms(2) have st: "realtime_step c i t = (Returns (), t')" by simp
    from realtime_step_Returns [OF st] obtain v f where
      rc: "i < length (tr_data t)" "preprocess_vol c v (mask_arr c) = Inr f"
          "tr_data t' = (tr_data t)[i := Some f]"
      and br: "(if int i < train_count c
        then trace t' = trace t @ [Volume i v]
        else if int i = train_count c
        then \<exists>m. clf_obj c (py_slice (tr_data t') tr_shift (train_count c))
                 (py_slice (labels c) 0 (train_count c - tr_shift)) None = Inr m
             \<and> trace t' = trace t @ [Volume i v, Fit i (py_slice (tr_data t') tr_shift (train_count c))
                        (py_slice (labels c) 0 (train_count c - tr_shift)) m]
        else \<exists>m p. clf t = Some m \<and> predict c m (Some f) = Inr p
             \<and> (if batch_due c i
                then \<exists>m'. clf_obj c (py_slice (tr_data t') (int i - incremental_batch c + tr_shift) (int i))
                      (py_slice (labels c) (int i - incremental_batch c) (int i - tr_shift)) (Some m) = Inr m'
                    \<and> trace t' = trace t @ [Volume i v, Predict i m (as_label p),
                        Update i (py_slice (tr_data t') (int i - incremental_batch c + tr_shift) (int i))
                          (py_slice (labels c) (int i - incremental_batch c) (int i - tr_shift)) m m']
                else trace t' = trace t @ [Volume i v, Predict i m (as_label p)]))"
      by (auto split: if_splits)
    have td: "tr_data t' = tr_data t \<or> (\<exists>f. tr_data t' = (tr_data t)[i := f])"
      using rc(3) by blast
    consider (collect) "int i < train_count c" | (train) "int i = train_count c" | (test) "train_count c < int i"
      by linarith
    then show ?thesis
    proof cases
      case collect
      with br have tr: "trace t' = trace t @ [Volume i v]" by simp
      show ?thesis
        proof (rule calls_invI)
        fix k X y m assume "Fit k X y m \<in> set (trace t')"
        with tr oF show "clf_obj c X y None = Inr m" by auto
      next
        fix k X y m m' assume "Update k X y m m' \<in> set (trace t')"
        with tr oU show "clf_obj c X y (Some m) = Inr m'" by auto
      next
        fix k m q assume "Predict k m q \<in> set (trace t')"
        with tr have "Predict k m q \<in> set (trace t)" by auto
        from keep [OF this _ td] tr
        show "k < Suc i \<and> (\<exists>v f p. Volume k v \<in> set (trace t') \<and> preprocess_vol c v (mask_arr c) = Inr f
                       \<and> tr_data t' ! k = Some f \<and> predict c m (Some f) = Inr p \<and> q = as_label p)"
          by auto
      qed
    next
      case train
      with br obtain m0 where
        call: "clf_obj c (py_slice (tr_data t') tr_shift (train_count c))
                 (py_slice (labels c) 0 (train_count c - tr_shift)) None = Inr m0"
        and tr: "trace t' = trace t @ [Volume i v, Fit i (py_slice (tr_data t') tr_shift (train_count c))
                        (py_slice (labels c) 0 (train_count c - tr_shift)) m0]"
        by auto
      show ?thesis
        proof (rule calls_invI)
        fix k X y m assume "Fit k X y m \<in> set (trace t')"
        with tr have "Fit k X y m \<in> set (trace t)
          \<or> (X = py_slice (tr_data t') tr_shift (train_count c)
              \<and> y = py_slice (labels c) 0 (train_count c - tr_shift) \<and> m = m0)"
          by auto
        with oF call show "clf_obj c X y None = Inr m" by auto
      next
        fix k X y m m' assume "Update k X y m m' \<in> set (trace t')"
        with tr oU show "clf_obj c X y (Some m) = Inr m'" by auto
      next
        fix k m q assume "Predict k m q \<in> set (trace t')"
        with tr have "Predict k m q \<in> set (trace t)" by auto
        from keep [OF this _ td] tr
        show "k < Suc i \<and> (\<exists>v f p. Volume k v \<in> set (trace t') \<and> preprocess_vol c v (mask_arr c) = Inr f
                       \<and> tr_data t' ! k = Some f \<and> predict c m (Some f) = Inr p \<and> q = as_label p)"
          by auto
      qed
    next
      case test
      with br obtain m0 p where cm: "clf t = Some m0" and pr: "predict c m0 (Some f) = Inr p"
        and br2: "(if batch_due c i
                then \<exists>m'. clf_obj c (py_slice (tr_data t') (int i - incremental_batch c + tr_shift) (int i))
                      (py_slice (labels c) (int i - incremental_batch c) (int i - tr_shift)) (Some m0) = Inr m'
                    \<and> trace t' = trace t @ [Volume i v, Predict i m0 (as_label p),
                        Update i (py_slice (tr_data t') (int i - incremental_batch c + tr_shift) (int i))
                          (py_slice (labels c) (int i - incremental_batch c) (int i - tr_shift)) m0 m']
                else trace t' = trace t @ [Volume i v, Predict i m0 (as_label p)])"
        by auto
      define X where "X = py_slice (tr_data t') (int i - incremental_batch c + tr_shift) (int i)"
      define y where "y = py_slice (labels c) (int i - incremental_batch c) (int i - tr_shift)"
      from br2 have "\<exists>es. trace t' = trace t @ [Volume i v, Predict i m0 (as_label p)] @ es
          \<and> (es = [] \<or> (\<exists>m'. clf_obj c X y (Some m0) = Inr m' \<and> es = [Update i X y m0 m']))"
        unfolding X_def y_def by (cases "batch_due c i") auto
      then obtain es where tr: "trace t' = trace t @ [Volume i v, Predict i m0 (as_label p)] @ es"
        and es: "es = [] \<or> (\<exists>m'. clf_obj c X y (Some m0) = Inr m' \<and> es = [Update i X y m0 m'])"
        by blast
      show ?thesis
        proof (rule calls_invI)
        fix k X' y' m assume "Fit k X' y' m \<in> set (trace t')"
        with tr es oF show "clf_obj c X' y' None = Inr m" by auto
      next
        fix k X' y' m m' assume "Update k X' y' m m' \<in> set (trace t')"
        with tr es have "Update k X' y' m m' \<in> set (trace t)
           \<or> (X' = X \<and> y' = y \<and> m = m0 \<and> clf_obj c X y (Some m0) = Inr m')"
          by auto
        with oU show "clf_obj c X' y' (Some m) = Inr m'" by auto
      next
        fix k ma q assume "Predict k ma q \<in> set (trace t')"
        with tr es have "Predict k ma q \<in> set (trace t) \<or> (k = i \<and> ma = m0 \<and> q = as_label p)" by auto
        then show "k < Suc i \<and> (\<exists>v f p. Volume k v \<in> set (trace t') \<and> preprocess_vol c v (mask_arr c) = Inr f
                       \<and> tr_data t' ! k = Some f \<and> predict c ma (Some f) = Inr p \<and> q = as_label p)"
        proof
          assume "Predict k ma q \<in> set (trace t)"
          from keep [OF this _ td] tr show ?thesis by auto
        next
          assume "k = i \<and> ma = m0 \<and> q = as_label p"
          moreover have "Volume i v \<in> set (trace t')" using tr by simp
          ultimately show ?thesis
            using fresh [OF _ rc(2) rc(1) rc(3) pr] by auto
        qed
      qed
    qed
  qed
qed

lemma calls_inv_loop:
  assumes "realtime_loop c i t = (r, t')" and "calls_inv c i t"
  shows "\<exists>n. calls_inv c n t'"
proof -
  from realtime_loop_rule_aux [of c i t r t' "calls_inv c", OF assms]
  show ?thesis
    using calls_inv_step by blast
qed

lemma realtime_calls_inv: "\<exists>n. calls_inv c n (snd (realtime c w obs))"
proof -
  obtain r s where rs: "realtime_loop c 0 (init_state c w obs) = (r, s)"
    by (cases "realtime_loop c 0 (init_state c w obs)")
  have "calls_inv c 0 (init_state c w obs)"
    by (simp add: calls_inv_def init_state_def)
  from calls_inv_loop [OF rs this] obtain n where "calls_inv c n s" ..
  moreover have "trace (snd (realtime c w obs)) = trace s \<and> tr_data (snd (realtime c w obs)) = tr_data s"
    using rs by (auto simp: realtime_def Let_def split: outcome.splits option.splits)
  ultimately have "calls_inv c n (snd (realtime c w obs))"
    by (simp add: calls_inv_def)
  then show ?thesis ..
qed

section \<open>Which classifier predicts which index\<close>

lemma hand_invI:
  assumes "\<And>k X y m. Fit k X y m \<in> set (trace t) \<Longrightarrow> int k = train_count c \<and> k < i"
    and "\<And>k X y m m'. Update k X y m m' \<in> set (trace t) \<Longrightarrow>
            k < i \<and> train_count c < int k \<and> batch_due c k"
    and "\<And>k m q. Predict k m q \<in> set (trace t) \<Longrightarrow> k < i \<and> train_count c < int k"
    and "\<And>k X y m j m'' q. Fit k X y m \<in> set (trace t) \<Longrightarrow> Predict j m'' q \<in> set (trace t) \<Longrightarrow>
            incremental_batch c \<le> 0 \<or> int j \<le> train_count c + incremental_batch c \<Longrightarrow> m'' = m"
    and "\<And>k X y m. Fit k X y m \<in> set (trace t) \<Longrightarrow>
            incremental_batch c \<le> 0 \<or> int i \<le> train_count c + incremental_batch c \<Longrightarrow> clf t = Some m"
    and "\<And>k X y m m' j m'' q. Update k X y m m' \<in> set (trace t) \<Longrightarrow> Predict j m'' q \<in> set (trace t) \<Longrightarrow>
            k < j \<Longrightarrow> int j \<le> int k + incremental_batch c \<Longrightarrow> m'' = m'"
    and "\<And>k X y m m'. Update k X y m m' \<in> set (trace t) \<Longrightarrow>
            int i \<le> int k + incremental_batch c \<Longrightarrow> clf t = Some m'"
  shows "hand_inv c i t"
  unfolding hand_inv_def
  apply (rule conjI, use assms(1) in blast)
  apply (rule conjI, use assms(2) in blast)
  apply (rule conjI, use assms(3) in blast)
  apply (rule conjI, use assms(4) in blast)
  apply (rule conjI, use assms(5) in blast)
  apply (rule conjI, use assms(6) in blast)
  using assms(7) apply blast
  done

lemma hand_invD:
  assumes "hand_inv c i t"
  shows "\<And>k X y m. Fit k X y m \<in> set (trace t) \<Longrightarrow> int k = train_count c \<and> k < i"
    and "\<And>k X y m m'. Update k X y m m' \<in> set (trace t) \<Longrightarrow>
            k < i \<and> train_count c < int k \<and> batch_due c k"
    and "\<And>k m q. Predict k m q \<in> set (trace t) \<Longrightarrow> k < i \<and> train_count c < int k"
    and "\<And>k X y m j m'' q. Fit k X y m \<in> set (trace t) \<Longrightarrow> Predict j m'' q \<in> set (trace t) \<Longrightarrow>
            incremental_batch c \<le> 0 \<or> int j \<le> train_count c + incremental_batch c \<Longrightarrow> m'' = m"
    and "\<And>k X y m. Fit k X y m \<in> set (trace t) \<Longrightarrow>
            incremental_batch c \<le> 0 \<or> int i \<le> train_count c + incremental_batch c \<Longrightarrow> clf t = Some m"
    and "\<And>k X y m m' j m'' q. Update k X y m m' \<in> set (trace t) \<Longrightarrow> Predict j m'' q \<in> set (trace t) \<Longrightarrow>
            k < j \<Longrightarrow> int j \<le> int k + incremental_batch c \<Longrightarrow> m'' = m'"
    and "\<And>k X y m m'. Update k X y m m' \<in> set (trace t) \<Longrightarrow>
            int i \<le> int k + incremental_batch c \<Longrightarrow> clf t = Some m'"
proof -
  from assms have a:
    "\<forall>k X y m. Fit k X y m \<in> set (trace t) \<longrightarrow> int k = train_count c \<and> k < i"
    "\<forall>k X y m m'. Update k X y m m' \<in> set (trace t) \<longrightarrow>
            k < i \<and> train_count c < int k \<and> batch_due c k"
    "\<forall>k m q. Predict k m q \<in> set (trace t) \<longrightarrow> k < i \<and> train_count c < int k"
    "\<forall>k X y m j m'' q. Fit k X y m \<in> set (trace t) \<longrightarrow> Predict j m'' q \<in> set (trace t) \<longrightarrow>
            incremental_batch c \<le> 0 \<or> int j \<le> train_count c + incremental_batch c \<longrightarrow> m'' = m"
    "\<forall>k X y m. Fit k X y m \<in> set (trace t) \<longrightarrow>
            incremental_batch c \<le> 0 \<or> int i \<le> train_count c + incremental_batch c \<longrightarrow> clf t = Some m"
    "\<forall>k X y m m' j m'' q. Update k X y m m' \<in> set (trace t) \<longrightarrow> Predict j m'' q \<in> set (trace t) \<longrightarrow>
            k < j \<longrightarrow> int j \<le> int k + incremental_batch c \<longrightarrow> m'' = m'"
    "\<forall>k X y m m'. Update k X y m m' \<in> set (trace t) \<longrightarrow>
            int i \<le> int k + incremental_batch c \<longrightarrow> clf t = Some m'"
    unfolding hand_inv_def by simp_all
  from a(1) show "\<And>k X y m. Fit k X y m \<in> set (trace t) \<Longrightarrow> int k = train_count c \<and> k < i"
    by blast
  from a(2) show "\<And>k X y m m'. Update k X y m m' \<in> set (trace t) \<Longrightarrow>
            k < i \<and> train_count c < int k \<and> batch_due c k"
    by blast
  from a(3) show "\<And>k m q. Predict k m q \<in> set (trace t) \<Longrightarrow> k < i \<and> train_count c < int k"
    by blast
  from a(4) show "\<And>k X y m j m'' q. Fit k X y m \<in> set (trace t) \<Longrightarrow> Predict j m'' q \<in> set (trace t) \<Longrightarrow>
            incremental_batch c \<le> 0 \<or> int j \<le> train_count c + incremental_batch c \<Longrightarrow> m'' = m"
    by blast
  from a(5) show "\<And>k X y m. Fit k X y m \<in> set (trace t) \<Longrightarrow>
            incremental_batch c \<le> 0 \<or> int i \<le> train_count c + incremental_batch c \<Longrightarrow> clf t = Some m"
    by blast
  from a(6) show "\<And>k X y m m' j m'' q. Update k X y m m' \<in> set (trace t) \<Longrightarrow> Predict j m'' q \<in> set (trace t) \<Longrightarrow>
            k < j \<Longrightarrow> int j \<le> int k + incremental_batch c \<Longrightarrow> m'' = m'"
    by blast
  from a(7) show "\<And>k X y m m'. Update k X y m m' \<in> set (trace t) \<Longrightarrow>
            int i \<le> int k + incremental_batch c \<Longrightarrow> clf t = Some m'"
    by blast
qed

lemma not_due_inside:
  assumes "0 < d" and "d < incremental_batch c" and "batch_due c i \<or> int i = train_count c"
    and "int j = int i + d"
  shows "\<not> batch_due c j"
proof
  assume due: "batch_due c j"
  then have b: "0 < incremental_batch c"
    by (simp add: batch_due_def)
  from due have dj: "incremental_batch c dvd int j - train_count c"
    unfolding batch_due_def by (simp add: dvd_eq_mod_eq_0)
  from assms(3) have di: "incremental_batch c dvd int i - train_count c"
    unfolding batch_due_def by (auto simp: dvd_eq_mod_eq_0)
  from dj di have "incremental_batch c dvd (int j - train_count c) - (int i - train_count c)"
    by (rule dvd_diff)
  with assms(4) have "incremental_batch c dvd d" by simp
  then have "incremental_batch c \<le> d" using assms(1) by (rule zdvd_imp_le)
  with assms(2) show False by simp
qed

lemma hand_inv_step:
  assumes "hand_inv c i t" and "realtime_step c i t = (Returns (), t')"
  shows "hand_inv c (Suc i) t'"
proof -
  note old = hand_invD [OF assms(1)]
  consider (collect) "int i < train_count c" | (train) "int i = train_count c" | (test) "train_count c < int i"
    by linarith
  then show ?thesis
  proof cases
    case collect
    from step_collect [OF assms(2) collect] obtain v where
      tr: "trace t' = trace t @ [Volume i v]" and cl: "clf t' = clf t"
      by blast
    have same: "e \<in> set (trace t)" if "e \<in> set (trace t')" "\<And>u. e \<noteq> Volume i u" for e
      using that tr by auto
    show ?thesis
    proof (rule hand_invI)
      fix k X y m assume "Fit k X y m \<in> set (trace t')"
      then have "Fit k X y m \<in> set (trace t)" by (rule same) simp
      from old(1) [OF this] show "int k = train_count c \<and> k < Suc i" by simp
    next
      fix k X y m m' assume "Update k X y m m' \<in> set (trace t')"
      then have "Update k X y m m' \<in> set (trace t)" by (rule same) simp
      from old(2) [OF this] show "k < Suc i \<and> train_count c < int k \<and> batch_due c k" by simp
    next
      fix k m q assume "Predict k m q \<in> set (trace t')"
      then have "Predict k m q \<in> set (trace t)" by (rule same) simp
      from old(3) [OF this] show "k < Suc i \<and> train_count c < int k" by simp
    next
      fix k X y m j m'' q
      assume "Fit k X y m \<in> set (trace t')" "Predict j m'' q \<in> set (trace t')"
        "incremental_batch c \<le> 0 \<or> int j \<le> train_count c + incremental_batch c"
      moreover from this have "Fit k X y m \<in> set (trace t)" "Predict j m'' q \<in> set (trace t)"
        by (auto intro: same)
      ultimately show "m'' = m" using old(4) by blast
    next
      fix k X y m assume "Fit k X y m \<in> set (trace t')"
      then have "Fit k X y m \<in> set (trace t)" by (rule same) simp
      from old(1) [OF this] collect have False by simp
      then show "clf t' = Some m" ..
    next
      fix k X y m m' j m'' q
      assume "Update k X y m m' \<in> set (trace t')" "Predict j m'' q \<in> set (trace t')"
        "k < j" "int j \<le> int k + incremental_batch c"
      moreover from this have "Update k X y m m' \<in> set (trace t)" "Predict j m'' q \<in> set (trace t)"
        by (auto intro: same)
      ultimately show "m'' = m'" using old(6) by blast
    next
      fix k X y m m' assume "Update k X y m m' \<in> set (trace t')"
      then have "Update k X y m m' \<in> set (trace t)" by (rule same) simp
      from old(2) [OF this] collect have False by simp
      then show "clf t' = Some m'" ..
    qed
  next
    case train
    from step_train [OF assms(2) train] obtain v X0 y0 m0 where
      tr: "trace t' = trace t @ [Volume i v, Fit i X0 y0 m0]" and cl: "clf t' = Some m0"
      by blast
    have noF: "Fit k X y m \<notin> set (trace t)" for k X y m
      using old(1) [of k X y m] train by auto
    have noU: "Update k X y m m' \<notin> set (trace t)" for k X y m m'
      using old(2) [of k X y m m'] train by auto
    have noP: "Predict k m q \<notin> set (trace t)" for k m q
      using old(3) [of k m q] train by auto
    have noU': "Update k X y m m' \<notin> set (trace t')" for k X y m m'
      using noU tr by auto
    have noP': "Predict k m q \<notin> set (trace t')" for k m q
      using noP tr by auto
    have F': "k = i \<and> m = m0" if "Fit k X y m \<in> set (trace t')" for k X y m
      using that noF tr by auto
    show ?thesis
    proof (rule hand_invI)
      fix k X y m assume "Fit k X y m \<in> set (trace t')"
      from F' [OF this] train show "int k = train_count c \<and> k < Suc i" by simp
    next
      fix k X y m m' assume "Update k X y m m' \<in> set (trace t')"
      with noU' show "k < Suc i \<and> train_count c < int k \<and> batch_due c k" by blast
    next
      fix k m q assume "Predict k m q \<in> set (trace t')"
      with noP' show "k < Suc i \<and> train_count c < int k" by blast
    next
      fix k X y m j m'' q
      assume "Predict j m'' q \<in> set (trace t')"
      with noP' show "m'' = m" by blast
    next
      fix k X y m assume "Fit k X y m \<in> set (trace t')"
      from F' [OF this] cl show "clf t' = Some m" by simp
    next
      fix k X y m m' j m'' q
      assume "Predict j m'' q \<in> set (trace t')"
      with noP' show "m'' = m'" by blast
    next
      fix k X y m m' assume "Update k X y m m' \<in> set (trace t')"
      with noU' show "clf t' = Some m'" by blast
    qed
  next
    case test
    from step_test [OF assms(2) test] obtain v m0 q0 m1 where
      cm: "clf t = Some m0" and cl: "clf t' = Some m1"
      and br: "(if batch_due c i
         then trace t' = trace t @ [Volume i v, Predict i m0 q0,
                   Update i (py_slice (tr_data t') (int i - incremental_batch c + tr_shift) (int i))
                     (py_slice (labels c) (int i - incremental_batch c) (int i - tr_shift)) m0 m1]
         else m1 = m0 \<and> trace t' = trace t @ [Volume i v, Predict i m0 q0])"
      by blast
    have F': "Fit k X y m \<in> set (trace t)" if "Fit k X y m \<in> set (trace t')" for k X y m
      using that br by (auto split: if_splits)
    have P': "Predict k m q \<in> set (trace t) \<or> (k = i \<and> m = m0)"
      if "Predict k m q \<in> set (trace t')" for k m q
      using that br by (auto split: if_splits)
    have U': "Update k X y m m' \<in> set (trace t) \<or> (k = i \<and> m' = m1 \<and> batch_due c i)"
      if "Update k X y m m' \<in> set (trace t')" for k X y m m'
      using that br by (auto split: if_splits)
    have quiet: "clf t' = clf t" if "\<not> batch_due c i"
      using that br cm cl by simp
    show ?thesis
    proof (rule hand_invI)
      fix k X y m assume "Fit k X y m \<in> set (trace t')"
      from old(1) [OF F' [OF this]] show "int k = train_count c \<and> k < Suc i" by simp
    next
      fix k X y m m' assume "Update k X y m m' \<in> set (trace t')"
      from U' [OF this] old(2) [of k X y m m'] test
      show "k < Suc i \<and> train_count c < int k \<and> batch_due c k" by auto
    next
      fix k m q assume "Predict k m q \<in> set (trace t')"
      from P' [OF this] old(3) [of k m q] test
      show "k < Suc i \<and> train_count c < int k" by auto
    next
      fix k X y m j m'' q
      assume f: "Fit k X y m \<in> set (trace t')" and p: "Predict j m'' q \<in> set (trace t')"
        and cond: "incremental_batch c \<le> 0 \<or> int j \<le> train_count c + incremental_batch c"
      from P' [OF p] show "m'' = m"
      proof
        assume "Predict j m'' q \<in> set (trace t)"
        from old(4) [OF F' [OF f] this cond] show ?thesis .
      next
        assume "j = i \<and> m'' = m0"
        with old(5) [OF F' [OF f]] cond cm show ?thesis by simp
      qed
    next
      fix k X y m
      assume f: "Fit k X y m \<in> set (trace t')"
        and cond: "incremental_batch c \<le> 0 \<or> int (Suc i) \<le> train_count c + incremental_batch c"
      from old(1) [OF F' [OF f]] have k: "int k = train_count c" by simp
      have "\<not> batch_due c i"
      proof (cases "incremental_batch c \<le> 0")
        case True
        then show ?thesis by (simp add: batch_due_def)
      next
        case False
        with cond have "int i - train_count c < incremental_batch c" by simp
        moreover have "0 < int i - train_count c" using test by simp
        ultimately show ?thesis
          using k by (intro not_due_inside [where i = k and d = "int i - train_count c"]) simp_all
      qed
      from quiet [OF this] old(5) [OF F' [OF f]] cond show "clf t' = Some m" by auto
    next
      fix k X y m m' j m'' q
      assume u: "Update k X y m m' \<in> set (trace t')" and p: "Predict j m'' q \<in> set (trace t')"
        and kj: "k < j" and jk: "int j \<le> int k + incremental_batch c"
      from U' [OF u] show "m'' = m'"
      proof
        assume uo: "Update k X y m m' \<in> set (trace t)"
        from P' [OF p] show ?thesis
        proof
          assume "Predict j m'' q \<in> set (trace t)"
          from old(6) [OF uo this kj jk] show ?thesis .
        next
          assume "j = i \<and> m'' = m0"
          with old(7) [OF uo] jk cm show ?thesis by simp
        qed
      next
        assume "k = i \<and> m' = m1 \<and> batch_due c i"
        with P' [OF p] old(3) [of j m'' q] kj show ?thesis by auto
      qed
    next
      fix k X y m m'
      assume u: "Update k X y m m' \<in> set (trace t')"
        and cond: "int (Suc i) \<le> int k + incremental_batch c"
      from U' [OF u] show "clf t' = Some m'"
      proof
        assume uo: "Update k X y m m' \<in> set (trace t)"
        from old(2) [OF uo] have k: "k < i" "batch_due c k" by simp_all
        have "\<not> batch_due c i"
          using k cond by (intro not_due_inside [where i = k and d = "int i - int k"]) simp_all
        from quiet [OF this] old(7) [OF uo] cond show ?thesis by simp
      next
        assume "k = i \<and> m' = m1 \<and> batch_due c i"
        with cl show ?thesis by simp
      qed
    qed
  qed
qed

lemma loop_hand_inv:
  assumes "realtime_loop c 0 (init_state c w obs) = (Returns (), s)"
  shows "hand_inv c (length (labels c)) s"
proof -
  have "hand_inv c 0 (init_state c w obs)"
    by (simp add: hand_inv_def init_state_def)
  from realtime_loop_rule [of c 0 "init_state c w obs" "Returns ()" s "hand_inv c", OF assms this]
  show ?thesis
    using hand_inv_step by blast
qed

lemma realtime_hand_inv:
  assumes "completes c w obs"
  shows "hand_inv c (length (labels c)) (snd (realtime c w obs))"
proof -
  from realtime_completes [OF assms] obtain s where
    s: "realtime_loop c 0 (init_state c w obs) = (Returns (), s)"
       "snd (realtime c w obs) = s\<lparr>observers := (observers s)[length obs := Stopped]\<rparr>"
    by blast
  from loop_hand_inv [OF s(1)] show ?thesis
    unfolding s(2) by (simp add: hand_inv_def)
qed

section \<open>The score counts the hits\<close>

lemma hit_simps [simp]:
  "hit c (Volume j v) = False"
  "hit c (Fit j X y m) = False"
  "hit c (Update j X y m m') = False"
  "hit c (Predict j m q) = (py_index (labels c) (int j - tr_shift) = Inr q)"
  by (simp_all add: hit_def)

lemma tally_inv_step:
  assumes "tally_inv c i t" and "realtime_step c i t = (Returns (), t')"
  shows "tally_inv c (Suc i) t'"
proof -
  consider (collect) "int i < train_count c" | (train) "int i = train_count c" | (test) "train_count c < int i"
    by linarith
  then show ?thesis
  proof cases
    case collect
    from step_collect [OF assms(2) collect] assms(1) collect show ?thesis
      by (auto simp: tally_inv_def)
  next
    case train
    from step_train [OF assms(2) train] assms(1) train show ?thesis
      by (auto simp: tally_inv_def)
  next
    case test
    from realtime_step_Returns [OF assms(2)] test obtain v m p l es where
      l: "py_index (labels c) (int i - tr_shift) = Inr l"
      and n: "num_correct t' = (if as_label p = l then num_correct t + 1 else num_correct t)"
      and a: "accuracy t' = Some (of_nat (num_correct t') / of_int (int i - train_count c))"
      and tr: "trace t' = trace t @ [Volume i v, Predict i m (as_label p)] @ es"
      and es: "\<forall>e\<in>set es. \<not> hit c e"
      by (cases "batch_due c i") auto
    from es have "filter (hit c) es = []" by (simp add: filter_empty_conv)
    with tr l have "length (filter (hit c) (trace t')) =
        length (filter (hit c) (trace t)) + (if as_label p = l then 1 else 0)"
      by auto
    with n assms(1) have "num_correct t' = length (filter (hit c) (trace t'))"
      by (simp add: tally_inv_def)
    moreover have "int (Suc i) - 1 - train_count c = int i - train_count c" by simp
    ultimately show ?thesis
      using a unfolding tally_inv_def by simp
  qed
qed

lemma loop_tally_inv:
  assumes "realtime_loop c 0 (init_state c w obs) = (Returns (), s)"
  shows "tally_inv c (length (labels c)) s"
proof -
  have "tally_inv c 0 (init_state c w obs)"
    by (simp add: tally_inv_def init_state_def)
  from realtime_loop_rule [of c 0 "init_state c w obs" "Returns ()" s "tally_inv c", OF assms this]
  show ?thesis
    using tally_inv_step by blast
qed

lemma realtime_tally_inv:
  assumes "completes c w obs"
  shows "tally_inv c (length (labels c)) (snd (realtime c w obs))"
proof -
  from realtime_completes [OF assms] obtain s where
    s: "realtime_loop c 0 (init_state c w obs) = (Returns (), s)"
       "snd (realtime c w obs) = s\<lparr>observers := (observers s)[length obs := Stopped]\<rparr>"
    by blast
  from loop_tally_inv [OF s(1)] show ?thesis
    unfolding s(2) by (simp add: tally_inv_def)
qed

section \<open>When every volume arrives and nothing raises\<close>

lemma await_event_finds:
  assumes "(a, filename) \<in> set q"
  shows "\<exists>t' q' a'. await_event filename t q = Some (t', q') \<and> t \<le> t'
           \<and> (a', filename) \<in> set q \<and> a' \<le> t'
           \<and> (\<forall>b g. (b, g) \<in> set q \<longrightarrow> (b, g) \<in> set q' \<or> b \<le> t')"
  using assms
proof (induction filename t q rule: await_event.induct)
  case (1 filename t)
  then show ?case by simp
next
  case (2 filename t arrival src_path q)
  show ?case
  proof (cases "src_path = filename")
    case True
    then show ?thesis
      by (intro exI [of _ "max t arrival"] exI [of _ q] exI [of _ arrival]) auto
  next
    case False
    with "2.prems" have "(a, filename) \<in> set q" by auto
    from "2.IH" [OF False this] obtain t' q' a' where
      *: "await_event filename (max t arrival) q = Some (t', q')" "max t arrival \<le> t'"
         "(a', filename) \<in> set q" "a' \<le> t'"
         "\<forall>b g. (b, g) \<in> set q \<longrightarrow> (b, g) \<in> set q' \<or> b \<le> t'"
      by blast
    with False show ?thesis
      by (intro exI [of _ t'] exI [of _ q'] exI [of _ a']) auto
  qed
qed

lemma await_event_keeps:
  "await_event filename t q = Some (t', q') \<Longrightarrow> (b, g) \<in> set q' \<Longrightarrow> (b, g) \<in> set q"
  by (induction filename t q rule: await_event.induct) (auto split: if_splits)

lemma tr_watcher_arrives:
  assumes "volumes_arrive c i w" and "i < length (labels c)"
  shows "\<exists>v w'. tr_watcher (data_dir c @ file_pattern i) w = (Returns v, w')
           \<and> volumes_arrive c (Suc i) w'"
proof -
  let ?f = "\<lambda>j. data_dir c @ file_pattern j"
  from assms have
    stay: "\<And>j t t'. i \<le> j \<Longrightarrow> j < length (labels c) \<Longrightarrow> clock w \<le> t \<Longrightarrow> t \<le> t'
        \<Longrightarrow> disk w t (?f j) \<noteq> None \<Longrightarrow> \<exists>v. disk w t' (?f j) = Some (Complete v)" and
    ev: "\<And>j a. i \<le> j \<Longrightarrow> j < length (labels c) \<Longrightarrow> (a, ?f j) \<in> set (file_queue w)
        \<Longrightarrow> disk w (max a (clock w)) (?f j) \<noteq> None" and
    here: "\<And>j. i \<le> j \<Longrightarrow> j < length (labels c) \<Longrightarrow>
        disk w (clock w) (?f j) \<noteq> None \<or> (\<exists>a. (a, ?f j) \<in> set (file_queue w))"
    unfolding volumes_arrive_def by blast+
  show ?thesis
  proof (cases "path_exists w (?f i)")
    case True
    then have "disk w (clock w) (?f i) \<noteq> None" by (simp add: path_exists_def)
    from stay [OF le_refl assms(2) le_refl le_refl this] obtain v where
      "disk w (clock w) (?f i) = Some (Complete v)" ..
    with True have "tr_watcher (?f i) w = (Returns v, w)"
      by (simp add: tr_watcher_def np_load_def)
    moreover have "volumes_arrive c (Suc i) w"
      using assms(1) unfolding volumes_arrive_def by auto
    ultimately show ?thesis by blast
  next
    case False
    then have "disk w (clock w) (?f i) = None" by (simp add: path_exists_def)
    with here [OF le_refl assms(2)] obtain a where "(a, ?f i) \<in> set (file_queue w)" by auto
    from await_event_finds [OF this, of "clock w"] obtain t' q' a' where
      aw: "await_event (?f i) (clock w) (file_queue w) = Some (t', q')" and le: "clock w \<le> t'"
      and a': "(a', ?f i) \<in> set (file_queue w)" "a' \<le> t'"
      and rest: "\<And>b g. (b, g) \<in> set (file_queue w) \<Longrightarrow> (b, g) \<in> set q' \<or> b \<le> t'"
      by blast
    let ?w' = "w\<lparr>clock := t', file_queue := q'\<rparr>"
    have vis: "disk w (max a' (clock w)) (?f i) \<noteq> None"
      by (rule ev [OF le_refl assms(2) a'(1)])
    have "max a' (clock w) \<le> t'" using a'(2) le by simp
    from stay [OF le_refl assms(2) _ this vis] obtain v where
      v: "disk w t' (?f i) = Some (Complete v)" by auto
    from False aw v have tw: "tr_watcher (?f i) w = (Returns v, ?w')"
      by (simp add: tr_watcher_def Let_def np_load_def)
    have "volumes_arrive c (Suc i) ?w'"
      unfolding volumes_arrive_def
    proof (intro allI impI)
      fix j assume "Suc i \<le> j \<and> j < length (labels c)"
      then have j: "i \<le> j" "j < length (labels c)" by simp_all
      have 1: "\<forall>t t2. clock ?w' \<le> t \<and> t \<le> t2 \<and> disk ?w' t (?f j) \<noteq> None \<longrightarrow>
            (\<exists>v. disk ?w' t2 (?f j) = Some (Complete v))"
      proof (intro allI impI)
        fix t t2
        assume a: "clock ?w' \<le> t \<and> t \<le> t2 \<and> disk ?w' t (?f j) \<noteq> None"
        with le have "clock w \<le> t" by simp
        from stay [OF j this] a show "\<exists>v. disk ?w' t2 (?f j) = Some (Complete v)" by simp
      qed
      have sub: "(b, ?f j) \<in> set (file_queue w) \<Longrightarrow> disk w (max b t') (?f j) \<noteq> None" for b
      proof -
        assume "(b, ?f j) \<in> set (file_queue w)"
        from ev [OF j this] have "disk w (max b (clock w)) (?f j) \<noteq> None" .
        moreover have "max b (clock w) \<le> max b t'" using le by simp
        ultimately obtain u where "disk w (max b t') (?f j) = Some (Complete u)"
          using stay [OF j, of "max b (clock w)" "max b t'"] by auto
        then show ?thesis by simp
      qed
      have q'sub: "(b, g) \<in> set q' \<Longrightarrow> (b, g) \<in> set (file_queue w)" for b g
        using aw by (rule await_event_keeps)
      have 2: "\<forall>b. (b, ?f j) \<in> set (file_queue ?w') \<longrightarrow> disk ?w' (max b (clock ?w')) (?f j) \<noteq> None"
        using sub q'sub by auto
      have 3: "disk ?w' (clock ?w') (?f j) \<noteq> None \<or> (\<exists>b. (b, ?f j) \<in> set (file_queue ?w'))"
      proof (cases "disk w (clock w) (?f j) \<noteq> None")
        case True
        from stay [OF j le_refl le True] show ?thesis by auto
      next
        case False
        with here [OF j] obtain b where b: "(b, ?f j) \<in> set (file_queue w)" by auto
        from rest [OF b] show ?thesis
        proof
          assume "(b, ?f j) \<in> set q'"
          then show ?thesis by auto
        next
          assume "b \<le> t'"
          with sub [OF b] show ?thesis by (simp add: max_def)
        qed
      qed
      from 1 2 3 show "(\<forall>t t2. clock ?w' \<le> t \<and> t \<le> t2 \<and> disk ?w' t (?f j) \<noteq> None \<longrightarrow>
            (\<exists>v. disk ?w' t2 (?f j) = Some (Complete v)))
        \<and> (\<forall>a. (a, ?f j) \<in> set (file_queue ?w') \<longrightarrow> disk ?w' (max a (clock ?w')) (?f j) \<noteq> None)
        \<and> (disk ?w' (clock ?w') (?f j) \<noteq> None \<or> (\<exists>a. (a, ?f j) \<in> set (file_queue ?w')))"
        by blast
    qed
    with tw show ?thesis by blast
  qed
qed

lemma py_index_ok:
  assumes "- int (length xs) \<le> j" and "j < int (length xs)"
  shows "\<exists>l. py_index xs j = Inr l"
  using assms by (auto simp: py_index_def)

lemma classify_returns:
  assumes "never_raises c" and "0 \<le> train_count c" and "train_count c < int i"
    and "i < length (labels c)" and "length (tr_data t) = length (labels c)" and "clf t \<noteq> None"
  shows "\<exists>t'. classify c i t = (Returns (), t')"
proof -
  from assms(6) obtain m where m: "clf t = Some m" by auto
  from assms(4,5) have row: "py_index (tr_data t) (int i) = Inr (tr_data t ! i)"
    by (simp add: py_index_nth)
  from assms(1) obtain p where p: "predict c m (tr_data t ! i) = Inr p"
    unfolding never_raises_def by blast
  have "- int (length (labels c)) \<le> int i - tr_shift"
    using assms(2,3,4) by (simp add: tr_shift_def)
  moreover have "int i - tr_shift < int (length (labels c))"
    using assms(4) by (simp add: tr_shift_def)
  ultimately obtain l where l: "py_index (labels c) (int i - tr_shift) = Inr l"
    using py_index_ok by blast
  show ?thesis
  proof (cases "batch_due c i")
    case False
    note nd = False [unfolded batch_due_def]
    from m row p l show ?thesis
      by (simp add: classify_def Let_def nd)
  next
    case True
    note due = True [unfolded batch_due_def]
    let ?s2 = "t\<lparr>trace := trace t @ [Predict i m (as_label p)],
                 num_correct := (if as_label p = l then num_correct t + 1 else num_correct t),
                 accuracy := Some (of_nat (if as_label p = l then num_correct t + 1 else num_correct t)
                                     / of_int (int i - train_count c))\<rparr>"
    from assms(1) obtain m' where
      "clf_obj c (py_slice (tr_data ?s2) (int i - incremental_batch c + tr_shift) (int i))
         (py_slice (labels c) (int i - incremental_batch c) (int i - tr_shift)) (Some m) = Inr m'"
      unfolding never_raises_def by blast
    with m row p l show ?thesis
      by (simp add: classify_def Let_def due)
  qed
qed

lemma realtime_step_returns:
  assumes "never_raises c" and "0 \<le> train_count c" and "i < length (labels c)"
    and "volumes_arrive c i (world s)" and "length (tr_data s) = length (labels c)"
    and "train_count c < int i \<longrightarrow> clf s \<noteq> None"
  shows "\<exists>s'. realtime_step c i s = (Returns (), s') \<and> volumes_arrive c (Suc i) (world s')
           \<and> length (tr_data s') = length (labels c)
           \<and> (train_count c < int (Suc i) \<longrightarrow> clf s' \<noteq> None)"
proof -
  from tr_watcher_arrives [OF assms(4,3)] obtain v w' where
    tw: "tr_watcher (data_dir c @ file_pattern i) (world s) = (Returns v, w')"
    and arr: "volumes_arrive c (Suc i) w'"
    by blast
  from assms(1) obtain f where pf: "preprocess_vol c v (mask_arr c) = Inr f"
    unfolding never_raises_def by blast
  define s1 where "s1 = s\<lparr>world := w', trace := trace s @ [Volume i v],
                           tr_data := (tr_data s)[i := Some f]\<rparr>"
  have rc: "receive c i s = (Returns (), s1)"
    using tw pf assms(3,5) by (simp add: receive_def Let_def s1_def)
  have s1: "world s1 = w'" "length (tr_data s1) = length (labels c)" "clf s1 = clf s"
    using assms(5) by (simp_all add: s1_def)
  consider (collect) "int i < train_count c" | (train) "int i = train_count c" | (test) "train_count c < int i"
    by linarith
  then show ?thesis
  proof cases
    case collect
    with rc have "realtime_step c i s = (Returns (), s1)"
      by (simp add: realtime_step_def)
    with arr s1 collect show ?thesis by auto
  next
    case train
    from assms(1) obtain m where
      "clf_obj c (py_slice (tr_data s1) tr_shift (train_count c))
         (py_slice (labels c) 0 (train_count c - tr_shift)) None = Inr m"
      unfolding never_raises_def by blast
    then obtain t' where t': "train c i s1 = (Returns (), t')"
      by (simp add: train_def Let_def)
    from train_Returns [OF t'] train_world [OF t'] have
      "clf t' \<noteq> None" "tr_data t' = tr_data s1" "world t' = world s1"
      by auto
    moreover from rc train t' have "realtime_step c i s = (Returns (), t')"
      by (simp add: realtime_step_def)
    ultimately show ?thesis
      using arr s1 by auto
  next
    case test
    with assms(6) s1(3) have "clf s1 \<noteq> None" by simp
    from classify_returns [OF assms(1,2) test assms(3) s1(2) this] obtain t' where
      t': "classify c i s1 = (Returns (), t')" ..
    from classify_Returns [OF t'] have "clf t' \<noteq> None" "tr_data t' = tr_data s1" "world t' = world s1"
      by (auto split: if_splits)
    moreover from rc test t' have "realtime_step c i s = (Returns (), t')"
      by (simp add: realtime_step_def)
    ultimately show ?thesis
      using arr s1 by auto
  qed
qed

lemma realtime_loop_returns:
  assumes "never_raises c" and "0 \<le> train_count c"
  shows "length (labels c) - i = n \<Longrightarrow> volumes_arrive c i (world s)
     \<Longrightarrow> length (tr_data s) = length (labels c)
     \<Longrightarrow> train_count c < int i \<longrightarrow> clf s \<noteq> None
     \<Longrightarrow> \<exists>s'. realtime_loop c i s = (Returns (), s')"
proof (induction n arbitrary: i s)
  case 0
  then show ?case by (simp add: realtime_loop.simps)
next
  case (Suc n)
  from Suc.prems(1) have i: "i < length (labels c)" by simp
  from realtime_step_returns [OF assms i Suc.prems(2,3,4)] obtain s1 where
    st: "realtime_step c i s = (Returns (), s1)" and arr: "volumes_arrive c (Suc i) (world s1)"
    and len: "length (tr_data s1) = length (labels c)"
    and cl: "train_count c < int (Suc i) \<longrightarrow> clf s1 \<noteq> None"
    by blast
  from Suc.prems(1) have "length (labels c) - Suc i = n" by simp
  from Suc.IH [OF this arr len cl] obtain s' where "realtime_loop c (Suc i) s1 = (Returns (), s')" ..
  with i st show ?case
    by (simp add: realtime_loop.simps [of c i s])
qed

lemma realtime_completes_if:
  assumes "never_raises c" and "0 \<le> train_count c" and "volumes_arrive c 0 w"
  shows "completes c w obs"
proof -
  have "\<exists>s'. realtime_loop c 0 (init_state c w obs) = (Returns (), s')"
    by (rule realtime_loop_returns [OF assms(1,2) refl])
       (use assms(2,3) in \<open>simp_all add: init_state_def\<close>)
  then show ?thesis
    by (auto simp: completes_def)
qed


lemma on_disk_Complete:
  "on_disk idxs f = Some x \<Longrightarrow> \<exists>i. x = Complete i"
  unfolding on_disk_def by (induction idxs) (auto split: if_splits)

lemma on_disk_present:
  assumes "i \<in> set idxs"
  shows "on_disk idxs (''./data/'' @ file_pattern i) \<noteq> None"
proof -
  have "''./data/'' @ file_pattern i
      \<in> fst ` set (map (\<lambda>i. (''./data/'' @ file_pattern i, Complete i)) idxs)"
    using assms by force
  then show ?thesis
    unfolding on_disk_def by (simp only: map_of_eq_None_iff not_not)
qed

lemma all_on_disk_arrives:
  assumes "data_dir c = ''./data/''" and "length (labels c) \<le> n"
  shows "volumes_arrive c i (all_on_disk n)"
proof -
  have p: "on_disk [0..<n] (''./data/'' @ file_pattern j) \<noteq> None" if "j < length (labels c)" for j
    using that assms(2) by (intro on_disk_present) simp
  have c: "\<exists>v. on_disk [0..<n] f = Some (Complete v)" if "on_disk [0..<n] f \<noteq> None" for f
    using that on_disk_Complete [of "[0..<n]" f] by auto
  show ?thesis
    unfolding volumes_arrive_def assms(1)
    using p c by (simp add: all_on_disk_def)
qed


lemma batches_of_4_arrives: "volumes_arrive batches_of_4 0 (all_on_disk 12)"
  by (rule all_on_disk_arrives) (simp_all add: data_dir_def batches_of_4_def toy_clf_def)


lemma batches_of_4_never_raises: "never_raises batches_of_4"
  by (simp add: never_raises_def batches_of_4_def toy_clf_def)

section \<open>Masking and z-scoring\<close>

lemma length_select:
  assumes "length vol = length msk"
  shows "length (select vol msk) = length (filter (\<lambda>b. b) msk)"
  using assms unfolding select_def
  by (induction vol msk rule: list_induct2) simp_all

lemma sum_list_scaled:
  "sum_list (map (\<lambda>x. (x - c) / d) xs) = (sum_list xs - real (length xs) * c) / (d::real)"
  by (induction xs) (simp_all add: field_simps add_divide_distrib diff_divide_distrib)

lemma np_mean_zscore:
  "np_mean (map (\<lambda>x. (x - np_mean xs) / d) xs) = 0"
proof (cases "xs = []")
  case True
  then show ?thesis by (simp add: np_mean_def)
next
  case False
  then have "real (length xs) * np_mean xs = sum_list xs"
    by (simp add: np_mean_def)
  then show ?thesis
    by (simp add: np_mean_def sum_list_scaled)
qed

lemma sum_list_squares_scaled:
  "sum_list (map (\<lambda>x. ((x - c) / d)\<^sup>2) xs) = sum_list (map (\<lambda>x. (x - c)\<^sup>2) xs) / (d::real)\<^sup>2"
  by (induction xs) (simp_all add: power_divide add_divide_distrib)

lemma np_std_zscore:
  assumes "np_std xs \<noteq> 0"
  shows "np_std (map (\<lambda>x. (x - np_mean xs) / np_std xs) xs) = 1"
proof -
  let ?mu = "np_mean xs" and ?sd = "np_std xs"
  let ?var = "np_mean (map (\<lambda>x. (x - ?mu)\<^sup>2) xs)"
  have var0: "0 \<le> ?var"
    unfolding np_mean_def by (intro divide_nonneg_nonneg sum_list_nonneg) auto
  have sd2: "?sd\<^sup>2 = ?var"
    using var0 by (simp add: np_std_def)
  have vne: "?var \<noteq> 0"
    using assms by (auto simp: np_std_def)
  have "np_mean (map (\<lambda>z. (z - 0)\<^sup>2) (map (\<lambda>x. (x - ?mu) / ?sd) xs))
        = sum_list (map (\<lambda>x. (x - ?mu)\<^sup>2) xs) / ?sd\<^sup>2 / real (length xs)"
    by (simp add: np_mean_def comp_def sum_list_squares_scaled)
  also have "\<dots> = ?var / ?sd\<^sup>2"
    by (simp add: np_mean_def)
  also have "\<dots> = 1"
    using vne by (simp add: sd2)
  finally have "np_mean (map (\<lambda>z. (z - 0)\<^sup>2) (map (\<lambda>x. (x - ?mu) / ?sd) xs)) = 1" .
  then show ?thesis
    unfolding np_std_def [of "map (\<lambda>x. (x - ?mu) / ?sd) xs"] np_mean_zscore by simp
qed

lemma length_transform:
  assumes "length (intensities vol) = length msk"
  shows "length (transform vol msk) = length (filter (\<lambda>b. b) msk)"
  using length_select [OF assms] by (simp add: transform_def zscore_def)

lemma np_std_single: "np_std [z] = 0"
  by (simp add: np_std_def np_mean_def)

lemma select_139: "select [1, 9, 3] [True, False, True] = [1, 3]"
  by (simp add: select_def)

lemma np_std_13: "np_std [1, 3] = 1"
  by (simp add: np_std_def np_mean_def)

section \<open>The claims\<close>

text \<open>
  C1. As stated, for every training threshold up to the number of volumes, the claim
  fails: with a threshold equal to the number of volumes no index reaches it and the
  classifier is never fit; and with a threshold below the shift the fit gets no row but
  the labels of \<^verbatim>\<open>labels[0:train_count - 3]\<close>, a slice with a negative stop. What holds:
  in a run that processes all its volumes, with \<open>0 \<le> train_count < len(labels)\<close>, the
  trace has exactly one fit, made at index \<open>train_count\<close>; its entry holds the arguments
  and the result of the call \<^verbatim>\<open>clf_obj(X, y)\<close>, and the classifier that call returned makes
  every prediction up to the first batch boundary (every prediction when no batch size
  is set); when \<open>train_count\<close> is at least the shift (\<open>tr_shift = 3\<close>), \<open>X\<close> and \<open>y\<close>
  are the pairs of the row of index \<open>i\<close> with the label of index \<open>i - tr_shift\<close>, for
  \<open>i\<close> from \<open>tr_shift\<close> to \<open>train_count - 1\<close>; and every row is the preprocessed volume
  received for its index.
\<close>

theorem realtime_trains_once:
  assumes "completes c w obs"
    and "0 \<le> train_count c" and "train_count c < int (length (labels c))"
  shows "(\<exists>X y m. filter is_fit (trace (snd (realtime c w obs))) = [Fit (nat (train_count c)) X y m]
           \<and> clf_obj c X y None = Inr m
           \<and> (\<forall>j m' q. Predict j m' q \<in> set (trace (snd (realtime c w obs))) \<longrightarrow>
                  incremental_batch c \<le> 0 \<or> int j \<le> train_count c + incremental_batch c \<longrightarrow> m' = m)
           \<and> (tr_shift \<le> train_count c \<longrightarrow>
                length X = nat (train_count c - tr_shift) \<and> length y = nat (train_count c - tr_shift)
                \<and> zip X y = map (\<lambda>i. (tr_data (snd (realtime c w obs)) ! i, labels c ! (i - nat tr_shift)))
                                [nat tr_shift..<nat (train_count c)]))
       \<and> (\<forall>i<length (labels c). \<exists>v f. Volume i v \<in> set (trace (snd (realtime c w obs)))
             \<and> preprocess_vol c v (mask_arr c) = Inr f
             \<and> tr_data (snd (realtime c w obs)) ! i = Some f)"
proof (rule conjI)
  let ?s = "snd (realtime c w obs)"
  let ?X = "py_slice (tr_data ?s) tr_shift (train_count c)"
  let ?y = "py_slice (labels c) 0 (train_count c - tr_shift)"
  have ri: "rows_inv c (length (labels c)) ?s" and fi: "fit_inv c (length (labels c)) ?s"
    using realtime_invariants [OF assms(1)] by blast+
  from ri have len: "length (tr_data ?s) = length (labels c)"
    by (simp add: rows_inv_def)
  from ri show "\<forall>i<length (labels c). \<exists>v f. Volume i v \<in> set (trace ?s)
             \<and> preprocess_vol c v (mask_arr c) = Inr f \<and> tr_data ?s ! i = Some f"
    unfolding rows_inv_def by (rule conjunct2)
  from fit_inv_after(1) [OF fi assms(2,3)]
  obtain m where fit: "filter is_fit (trace ?s) = [Fit (nat (train_count c)) ?X ?y m]"
    by (elim exE conjE)
  have "Fit (nat (train_count c)) ?X ?y m \<in> set (filter is_fit (trace ?s))"
    by (simp only: fit list.set_intros)
  then have mem: "Fit (nat (train_count c)) ?X ?y m \<in> set (trace ?s)"
    by simp
  from realtime_calls_inv [of c w obs] obtain n where "calls_inv c n ?s" ..
  with mem have call: "clf_obj c ?X ?y None = Inr m"
    unfolding calls_inv_def by blast
  note hand = hand_invD(4) [OF realtime_hand_inv [OF assms(1)] mem]
  have first: "\<forall>j m' q. Predict j m' q \<in> set (trace ?s) \<longrightarrow>
                  incremental_batch c \<le> 0 \<or> int j \<le> train_count c + incremental_batch c \<longrightarrow> m' = m"
    using hand by blast
  have pairs: "length ?X = nat (train_count c - tr_shift) \<and> length ?y = nat (train_count c - tr_shift)
      \<and> zip ?X ?y = map (\<lambda>i. (tr_data ?s ! i, labels c ! (i - nat tr_shift))) [nat tr_shift..<nat (train_count c)]"
    if "tr_shift \<le> train_count c"
  proof -
    have a: "(0::int) \<le> 0" by simp
    have b: "0 + tr_shift \<le> train_count c" using that by simp
    have d: "train_count c \<le> int (length (tr_data ?s))" using assms(3) len by simp
    from aligned_pairs [OF a b d len [symmetric]] show ?thesis by simp
  qed
  show "\<exists>X y m. filter is_fit (trace ?s) = [Fit (nat (train_count c)) X y m]
           \<and> clf_obj c X y None = Inr m
           \<and> (\<forall>j m' q. Predict j m' q \<in> set (trace ?s) \<longrightarrow>
                  incremental_batch c \<le> 0 \<or> int j \<le> train_count c + incremental_batch c \<longrightarrow> m' = m)
           \<and> (tr_shift \<le> train_count c \<longrightarrow>
                length X = nat (train_count c - tr_shift) \<and> length y = nat (train_count c - tr_shift)
                \<and> zip X y = map (\<lambda>i. (tr_data ?s ! i, labels c ! (i - nat tr_shift)))
                                [nat tr_shift..<nat (train_count c)])"
    apply (rule exI [of _ ?X], rule exI [of _ ?y], rule exI [of _ m])
    using fit call first pairs by blast
qed

theorem realtime_trains_once_witness:
  "completes scenario_A (all_on_disk 10) []
   \<and> 0 \<le> train_count scenario_A
   \<and> train_count scenario_A < int (length (labels scenario_A))
   \<and> tr_shift \<le> train_count scenario_A
   \<and> incremental_batch scenario_A \<le> 0
   \<and> Predict 6 2 2 \<in> set (trace (snd (realtime scenario_A (all_on_disk 10) [])))
   \<and> (\<exists>X y. filter is_fit (trace (snd (realtime scenario_A (all_on_disk 10) []))) = [Fit 5 X y 2]
         \<and> clf_obj scenario_A X y None = Inr 2
         \<and> zip X y = [(Some 3, 1), (Some 4, 2)])"
proof -
  have b0: "incremental_batch scenario_A \<le> 0" by code_simp
  have p6: "Predict 6 2 2 \<in> set (trace (snd (realtime scenario_A (all_on_disk 10) [])))"
    by code_simp
  have h1: "completes scenario_A (all_on_disk 10) []" by code_simp
  have h2: "0 \<le> train_count scenario_A" by code_simp
  have h3: "train_count scenario_A < int (length (labels scenario_A))" by code_simp
  have h4: "tr_shift \<le> train_count scenario_A" by code_simp
  have ev: "map (\<lambda>i. (tr_data (snd (realtime scenario_A (all_on_disk 10) [])) ! i,
                      labels scenario_A ! (i - nat tr_shift)))
              [nat tr_shift..<nat (train_count scenario_A)] = [(Some 3, 1), (Some 4, 2)]"
    by code_simp
  have n: "nat (train_count scenario_A) = 5" by code_simp
  from realtime_trains_once [OF h1 h2 h3, THEN conjunct1] h4 obtain X y m where
    f: "filter is_fit (trace (snd (realtime scenario_A (all_on_disk 10) [])))
          = [Fit (nat (train_count scenario_A)) X y m]"
    and call: "clf_obj scenario_A X y None = Inr m"
    and first: "\<forall>j m' q. Predict j m' q \<in> set (trace (snd (realtime scenario_A (all_on_disk 10) []))) \<longrightarrow>
        incremental_batch scenario_A \<le> 0 \<or> int j \<le> train_count scenario_A + incremental_batch scenario_A
        \<longrightarrow> m' = m"
    and z: "zip X y = map (\<lambda>i. (tr_data (snd (realtime scenario_A (all_on_disk 10) [])) ! i,
                      labels scenario_A ! (i - nat tr_shift)))
              [nat tr_shift..<nat (train_count scenario_A)]"
    by blast
  from first p6 b0 have m: "m = 2" by blast
  from z have z': "zip X y = [(Some 3, 1), (Some 4, 2)]"
    by (simp only: ev)
  from f have "filter is_fit (trace (snd (realtime scenario_A (all_on_disk 10) []))) = [Fit 5 X y m]"
    by (simp only: n)
  with z' call m h1 h2 h3 h4 b0 p6 show ?thesis by blast
qed

theorem threshold_at_end_counterexample:
  "train_count threshold_at_end \<le> int (length (labels threshold_at_end))
   \<and> completes threshold_at_end (all_on_disk 4) []
   \<and> filter is_fit (trace (snd (realtime threshold_at_end (all_on_disk 4) []))) = []
   \<and> clf (snd (realtime threshold_at_end (all_on_disk 4) [])) = None
   \<and> train_count threshold_below_shift \<le> int (length (labels threshold_below_shift))
   \<and> filter is_fit (trace (snd (realtime threshold_below_shift (all_on_disk 4) [])))
       = [Fit 2 [] [1, 2, 1] 0]"
  by code_simp

text \<open>
  C2. Volumes are received and processed in increasing index order whatever the order of
  the creation events in the queue: the indices received in a run are \<open>0, 1, \<dots>, k - 1\<close>
  for some \<open>k\<close>, and the volume received for an index is the complete content of the
  file of that index. In the run where the event of index 5 is queued before the event
  of index 4, and the file of index 4 does not exist yet, the volume of index 4 is still
  processed before the volume of index 5.
\<close>

theorem realtime_index_order:
  "(\<exists>k. k \<le> length (labels c) \<and> received (trace (snd (realtime c w obs))) = [0..<k])
   \<and> (\<forall>i v. Volume i v \<in> set (trace (snd (realtime c w obs))) \<longrightarrow>
         (\<exists>t. disk w t (data_dir c @ file_pattern i) = Some (Complete v)))
   \<and> map snd (file_queue w54) = [data_dir cfg54 @ file_pattern 5, data_dir cfg54 @ file_pattern 4]
   \<and> path_exists w54 (data_dir cfg54 @ file_pattern 4) = False
   \<and> filter (\<lambda>e. case e of Volume i v \<Rightarrow> True | _ \<Rightarrow> False) (trace (snd (realtime cfg54 w54 [])))
       = [Volume 0 0, Volume 1 1, Volume 2 2, Volume 3 3, Volume 4 4, Volume 5 5]"
proof -
  obtain r s where rs: "realtime_loop c 0 (init_state c w obs) = (r, s)"
    by (cases "realtime_loop c 0 (init_state c w obs)")
  then have tr: "trace (snd (realtime c w obs)) = trace s"
    by (simp add: realtime_trace)
  have "\<exists>k. k \<le> length (labels c) \<and> received (trace (snd (realtime c w obs))) = [0..<k]"
    unfolding tr by (rule received_loop [OF rs])
  moreover have "\<forall>i v. Volume i v \<in> set (trace (snd (realtime c w obs))) \<longrightarrow>
         (\<exists>t. disk w t (data_dir c @ file_pattern i) = Some (Complete v))"
    unfolding tr using volumes_from_disk [OF rs] by blast
  moreover have "map snd (file_queue w54) = [data_dir cfg54 @ file_pattern 5, data_dir cfg54 @ file_pattern 4]"
    by code_simp
  moreover have "path_exists w54 (data_dir cfg54 @ file_pattern 4) = False"
    by code_simp
  moreover have "filter (\<lambda>e. case e of Volume i v \<Rightarrow> True | _ \<Rightarrow> False) (trace (snd (realtime cfg54 w54 [])))
       = [Volume 0 0, Volume 1 1, Volume 2 2, Volume 3 3, Volume 4 4, Volume 5 5]"
    by code_simp
  ultimately show ?thesis by blast
qed

theorem realtime_index_order_witness:
  "Volume 4 4 \<in> set (trace (snd (realtime cfg54 w54 [])))
   \<and> (\<exists>t. disk w54 t (data_dir cfg54 @ file_pattern 4) = Some (Complete 4))
   \<and> (\<exists>k. k \<le> length (labels cfg54) \<and> received (trace (snd (realtime cfg54 w54 []))) = [0..<k])
   \<and> received (trace (snd (realtime cfg54 w54 []))) = [0, 1, 2, 3, 4, 5]"
proof -
  have v: "Volume 4 4 \<in> set (trace (snd (realtime cfg54 w54 [])))" by code_simp
  have r: "received (trace (snd (realtime cfg54 w54 []))) = [0, 1, 2, 3, 4, 5]" by code_simp
  from realtime_index_order [of cfg54 w54 "[]"] v r show ?thesis by blast
qed

text \<open>
  C3. The code does not do what the claim says. \<^verbatim>\<open>realtime\<close> stops its observer only
  after the loop, and the handler of the calling cell stops the observer bound to the
  module-level name \<^verbatim>\<open>file_observer\<close>, which is not the one the run created. In the run
  below the training function raises at index 4: the error leaves \<^verbatim>\<open>realtime\<close> with the
  run's observer (address 1) running, and it is still running after the cell's handler
  has stopped the module-level observer (address 0). A run that returns has stopped its
  observer.
\<close>

theorem observer_leaked_on_error:
  "fst (realtime single_class_start (all_on_disk 6) [Stopped]) = Raises ValueError
   \<and> observers (snd (realtime single_class_start (all_on_disk 6) [Stopped])) = [Stopped, Running]
   \<and> fst (realtime_cell 0 single_class_start (all_on_disk 6) [Stopped]) = Returns ()
   \<and> observers (snd (realtime_cell 0 single_class_start (all_on_disk 6) [Stopped])) = [Stopped, Running]
   \<and> fst (realtime scenario_A (all_on_disk 10) [Stopped]) = Returns (1 / 2)
   \<and> observers (snd (realtime scenario_A (all_on_disk 10) [Stopped])) = [Stopped, Stopped]"
  by code_simp

text \<open>
  C4. The code does not do what the claim says. The notebook introduces \<^verbatim>\<open>tr_watcher\<close>
  because the polling watcher "can crash since the file names often exist before the
  file contents are created", yet \<^verbatim>\<open>tr_watcher\<close> loads the file once, as soon as its
  name exists or its creation event arrives, and never again. In \<open>half_written\<close> the name
  exists at the call and the contents are complete two ticks later: the watcher raises
  the load error at once, at tick 0. In \<open>written_late\<close> the watcher waits for the
  creation event, loads at its arrival (tick 1) and raises, though the contents are
  complete from tick 3 on. The polling watcher raises in the same way, and a run of the
  controller ends with that error at its first volume.
\<close>

theorem watcher_crashes_on_half_written_file:
  "path_exists half_written ''./data/rt_000.npy''
   \<and> disk half_written 0 ''./data/rt_000.npy'' = Some Partial
   \<and> disk half_written 2 ''./data/rt_000.npy'' = Some (Complete 7)
   \<and> fst (tr_watcher ''./data/rt_000.npy'' half_written) = Raises LoadError
   \<and> clock (snd (tr_watcher ''./data/rt_000.npy'' half_written)) = 0
   \<and> \<not> path_exists written_late ''./data/rt_000.npy''
   \<and> disk written_late 1 ''./data/rt_000.npy'' = Some Partial
   \<and> disk written_late 3 ''./data/rt_000.npy'' = Some (Complete 7)
   \<and> fst (tr_watcher ''./data/rt_000.npy'' written_late) = Raises LoadError
   \<and> clock (snd (tr_watcher ''./data/rt_000.npy'' written_late)) = 1
   \<and> file_queue (snd (tr_watcher ''./data/rt_000.npy'' written_late)) = []
   \<and> map_option fst (tr_watcher_simple ''./data/rt_000.npy'' 1 half_written) = Some (Raises LoadError)
   \<and> map_option fst (tr_watcher_simple ''./data/rt_000.npy'' 1 written_late) = Some (Raises LoadError)
   \<and> fst (realtime one_volume half_written []) = Raises LoadError
   \<and> fst (realtime one_volume written_late []) = Raises LoadError"
  by code_simp




text \<open>
  C6. In every run, a prediction in the trace is what \<^verbatim>\<open>predict\<close> returns, for the
  classifier live at that position (the one returned by the last fit or update before
  it), on the row of its index, the preprocessed volume received for that index. An
  update in the trace directly follows the prediction of its own index, and it is the
  call \<^verbatim>\<open>clf_obj(X, y, clf)\<close> on the classifier that made that prediction. So the update of
  a batch boundary comes after the prediction of the boundary volume, inside the
  classifying branch, and the boundary volume is classified by the classifier as it was
  before the update. In a run that processes all its volumes, \<^verbatim>\<open>num_correct\<close> counts the
  predictions of the trace that equal their shifted label, every index after
  \<open>train_count\<close> has a prediction, and every batch boundary has an update; and a run
  does process all its volumes when the volume files arrive whole and neither the
  preprocessing nor the classifier raises.
\<close>

theorem prediction_before_update:
  assumes "n < length (trace (snd (realtime c w obs)))"
  shows "(trace (snd (realtime c w obs)) ! n = Update j X y m m' \<longrightarrow>
            0 < n \<and> (\<exists>q. trace (snd (realtime c w obs)) ! (n - 1) = Predict j m q)
            \<and> live (take n (trace (snd (realtime c w obs)))) = Some m
            \<and> clf_obj c X y (Some m) = Inr m')
       \<and> (trace (snd (realtime c w obs)) ! n = Predict j m q \<longrightarrow>
            live (take n (trace (snd (realtime c w obs)))) = Some m
            \<and> (\<exists>v f p. Volume j v \<in> set (trace (snd (realtime c w obs)))
                  \<and> preprocess_vol c v (mask_arr c) = Inr f
                  \<and> tr_data (snd (realtime c w obs)) ! j = Some f
                  \<and> predict c m (Some f) = Inr p \<and> q = as_label p))
       \<and> live (trace (snd (realtime c w obs))) = clf (snd (realtime c w obs))
       \<and> (completes c w obs \<longrightarrow>
            num_correct (snd (realtime c w obs))
              = length (filter (hit c) (trace (snd (realtime c w obs))))
            \<and> (0 \<le> train_count c \<longrightarrow>
                 predicted (trace (snd (realtime c w obs)))
                   = [Suc (nat (train_count c))..<length (labels c)]
                 \<and> (\<forall>k<length (labels c). train_count c < int k \<longrightarrow> batch_due c k \<longrightarrow>
                       (\<exists>X y m m'. Update k X y m m' \<in> set (trace (snd (realtime c w obs)))))))
       \<and> (volumes_arrive c 0 w \<and> never_raises c \<and> 0 \<le> train_count c \<longrightarrow> completes c w obs)"
proof -
  let ?s = "snd (realtime c w obs)"
  let ?tr = "trace ?s"
  from realtime_order_inv [of c w obs] have lv: "live ?tr = clf ?s"
    and ord: "ordered ?tr"
    by (simp_all add: order_inv_def)
  from realtime_calls_inv [of c w obs] obtain k0 where ci: "calls_inv c k0 ?s" ..
  have pr: "live (take k ?tr) = Some a" if "k < length ?tr" "?tr ! k = Predict i a b" for k i a b
    using ord that unfolding ordered_def by (auto split: event.splits)
  have up: "0 < n \<and> (\<exists>q. ?tr ! (n - 1) = Predict j m q) \<and> live (take n ?tr) = Some m
      \<and> clf_obj c X y (Some m) = Inr m'"
    if u: "?tr ! n = Update j X y m m'"
  proof -
    from ord assms u have n0: "0 < n" and "\<exists>q. ?tr ! (n - 1) = Predict j m q"
      unfolding ordered_def by (auto split: event.splits)
    then obtain q where q: "?tr ! (n - 1) = Predict j m q" by blast
    from n0 assms have k: "n - 1 < length ?tr" by simp
    from pr [OF k q] live_take_Suc [OF k] q n0
    have l: "live (take n ?tr) = Some m" by simp
    from u assms have "Update j X y m m' \<in> set ?tr"
      by (metis nth_mem)
    with ci have "clf_obj c X y (Some m) = Inr m'"
      unfolding calls_inv_def by blast
    with n0 q l show ?thesis by blast
  qed
  have pd: "live (take n ?tr) = Some m
      \<and> (\<exists>v f p. Volume j v \<in> set ?tr \<and> preprocess_vol c v (mask_arr c) = Inr f
             \<and> tr_data ?s ! j = Some f \<and> predict c m (Some f) = Inr p \<and> q = as_label p)"
    if p: "?tr ! n = Predict j m q"
  proof -
    from p assms have "Predict j m q \<in> set ?tr"
      by (metis nth_mem)
    with ci have "\<exists>v f p. Volume j v \<in> set ?tr \<and> preprocess_vol c v (mask_arr c) = Inr f
             \<and> tr_data ?s ! j = Some f \<and> predict c m (Some f) = Inr p \<and> q = as_label p"
      unfolding calls_inv_def by blast
    with pr [OF assms p] show ?thesis by blast
  qed
  have full: "num_correct ?s = length (filter (hit c) ?tr)
            \<and> (0 \<le> train_count c \<longrightarrow>
                 predicted ?tr = [Suc (nat (train_count c))..<length (labels c)]
                 \<and> (\<forall>k<length (labels c). train_count c < int k \<longrightarrow> batch_due c k \<longrightarrow>
                       (\<exists>X y m m'. Update k X y m m' \<in> set ?tr)))"
    if cp: "completes c w obs"
  proof -
    note inv = realtime_invariants [OF cp]
    from realtime_tally_inv [OF cp] have nc: "num_correct ?s = length (filter (hit c) ?tr)"
      by (simp add: tally_inv_def)
    have pd: "predicted ?tr = [Suc (nat (train_count c))..<length (labels c)]" if "0 \<le> train_count c"
    proof (cases "train_count c < int (length (labels c))")
      case True
      from fit_inv_after(3) [OF inv(2) that True] show ?thesis .
    next
      case False
      with inv(2) have "predicted ?tr = []" by (simp add: fit_inv_def)
      moreover from False that have "length (labels c) \<le> Suc (nat (train_count c))" by linarith
      ultimately show ?thesis by (simp only: upt_conv_Nil)
    qed
    from inv(4) have "\<forall>k<length (labels c). train_count c < int k \<longrightarrow> batch_due c k \<longrightarrow>
                       (\<exists>X y m m'. Update k X y m m' \<in> set ?tr)"
      unfolding update_inv_def by (rule conjunct2)
    with nc pd show ?thesis by blast
  qed
  have run: "completes c w obs" if "volumes_arrive c 0 w \<and> never_raises c \<and> 0 \<le> train_count c"
    using that by (intro realtime_completes_if) simp_all
  from up pd lv full run show ?thesis by blast
qed

theorem prediction_before_update_witness:
  "13 < length (trace (snd (realtime batches_of_4 (all_on_disk 12) [])))
   \<and> trace (snd (realtime batches_of_4 (all_on_disk 12) [])) ! 13 = Update 7 [Some 6] [2] 0 1
   \<and> (\<exists>q. trace (snd (realtime batches_of_4 (all_on_disk 12) [])) ! (13 - 1) = Predict 7 0 q)
   \<and> live (take 13 (trace (snd (realtime batches_of_4 (all_on_disk 12) [])))) = Some 0
   \<and> clf_obj batches_of_4 [Some 6] [2] (Some 0) = Inr 1
   \<and> trace (snd (realtime batches_of_4 (all_on_disk 12) [])) ! 12 = Predict 7 0 2
   \<and> (\<exists>v f p. Volume 7 v \<in> set (trace (snd (realtime batches_of_4 (all_on_disk 12) [])))
          \<and> preprocess_vol batches_of_4 v (mask_arr batches_of_4) = Inr f
          \<and> tr_data (snd (realtime batches_of_4 (all_on_disk 12) [])) ! 7 = Some f
          \<and> predict batches_of_4 0 (Some f) = Inr p \<and> 2 = as_label p)
   \<and> volumes_arrive batches_of_4 0 (all_on_disk 12) \<and> never_raises batches_of_4
   \<and> 0 \<le> train_count batches_of_4
   \<and> completes batches_of_4 (all_on_disk 12) []
   \<and> num_correct (snd (realtime batches_of_4 (all_on_disk 12) []))
       = length (filter (hit batches_of_4) (trace (snd (realtime batches_of_4 (all_on_disk 12) []))))
   \<and> predicted (trace (snd (realtime batches_of_4 (all_on_disk 12) [])))
       = [Suc (nat (train_count batches_of_4))..<length (labels batches_of_4)]
   \<and> 11 < length (labels batches_of_4) \<and> train_count batches_of_4 < int 11
   \<and> batch_due batches_of_4 11
   \<and> (\<exists>X y m m'. Update 11 X y m m' \<in> set (trace (snd (realtime batches_of_4 (all_on_disk 12) []))))"
proof -
  have n: "13 < length (trace (snd (realtime batches_of_4 (all_on_disk 12) [])))"
    by code_simp
  have n': "12 < length (trace (snd (realtime batches_of_4 (all_on_disk 12) [])))"
    by code_simp
  have u: "trace (snd (realtime batches_of_4 (all_on_disk 12) [])) ! 13 = Update 7 [Some 6] [2] 0 1"
    by code_simp
  have p: "trace (snd (realtime batches_of_4 (all_on_disk 12) [])) ! 12 = Predict 7 0 2"
    by code_simp
  have va: "volumes_arrive batches_of_4 0 (all_on_disk 12)" by (rule batches_of_4_arrives)
  have nr: "never_raises batches_of_4" by (rule batches_of_4_never_raises)
  have t0: "0 \<le> train_count batches_of_4" by code_simp
  have k: "11 < length (labels batches_of_4)" "train_count batches_of_4 < int 11"
    "batch_due batches_of_4 11"
    by code_simp+
  note w = prediction_before_update [OF n, of 7 "[Some 6]" "[2]" 0 1]
  from w va nr t0 have cp: "completes batches_of_4 (all_on_disk 12) []"
    by blast
  from prediction_before_update [OF n, of 7 "[Some 6]" "[2]" 0 1] u
  have 1: "(\<exists>q. trace (snd (realtime batches_of_4 (all_on_disk 12) [])) ! (13 - 1) = Predict 7 0 q)
     \<and> live (take 13 (trace (snd (realtime batches_of_4 (all_on_disk 12) [])))) = Some 0
     \<and> clf_obj batches_of_4 [Some 6] [2] (Some 0) = Inr 1"
    by blast
  from prediction_before_update [OF n', of 7 "[]" "[]" 0 0 2] p
  have 2: "\<exists>v f p. Volume 7 v \<in> set (trace (snd (realtime batches_of_4 (all_on_disk 12) [])))
          \<and> preprocess_vol batches_of_4 v (mask_arr batches_of_4) = Inr f
          \<and> tr_data (snd (realtime batches_of_4 (all_on_disk 12) [])) ! 7 = Some f
          \<and> predict batches_of_4 0 (Some f) = Inr p \<and> 2 = as_label p"
    by blast
  from w cp t0
  have 3: "num_correct (snd (realtime batches_of_4 (all_on_disk 12) []))
       = length (filter (hit batches_of_4) (trace (snd (realtime batches_of_4 (all_on_disk 12) []))))"
    and 4: "predicted (trace (snd (realtime batches_of_4 (all_on_disk 12) [])))
       = [Suc (nat (train_count batches_of_4))..<length (labels batches_of_4)]"
    and 5: "\<forall>k<length (labels batches_of_4). train_count batches_of_4 < int k \<longrightarrow> batch_due batches_of_4 k \<longrightarrow>
              (\<exists>X y m m'. Update k X y m m' \<in> set (trace (snd (realtime batches_of_4 (all_on_disk 12) []))))"
    by blast+
  from 5 k have 6: "\<exists>X y m m'. Update 11 X y m m' \<in> set (trace (snd (realtime batches_of_4 (all_on_disk 12) [])))"
    by blast
  from n u p va nr cp t0 k 1 2 3 4 6 show ?thesis by blast
qed

text \<open>
  C7. In every run with incremental batch size 0 the trace has no update, every
  prediction was made by the classifier that the single fit returned, and the
  classifier variable, once assigned, holds that classifier.
\<close>

theorem no_update_without_batch:
  assumes "incremental_batch c = 0"
  shows "filter is_update (trace (snd (realtime c w obs))) = []
       \<and> (\<forall>i m q. Predict i m q \<in> set (trace (snd (realtime c w obs))) \<longrightarrow>
            (\<exists>k X y. filter is_fit (trace (snd (realtime c w obs))) = [Fit k X y m]))
       \<and> (\<forall>m. clf (snd (realtime c w obs)) = Some m \<longrightarrow>
            (\<exists>k X y. filter is_fit (trace (snd (realtime c w obs))) = [Fit k X y m]))"
proof -
  from realtime_state [of c w obs] obtain r s where
    rs: "realtime_loop c 0 (init_state c w obs) = (r, s)"
    and eq: "trace (snd (realtime c w obs)) = trace s" "clf (snd (realtime c w obs)) = clf s"
    by blast
  have b: "incremental_batch c \<le> 0" using assms by simp
  have "frozen s \<and> filter is_update (trace s) = []"
    using loop_outcome [OF rs]
  proof (elim disjE conjE exE)
    assume "fit_inv c (length (labels c)) s" "update_inv c (length (labels c)) s"
    then show ?thesis
      using frozen_of_fit_inv [OF _ b] no_update [OF _ b] by blast
  next
    fix j u
    assume f: "r \<noteq> Returns ()" "fit_inv c j u" "update_inv c j u" "realtime_step c j u = (r, s)"
    from frozen_fails [OF frozen_of_fit_inv [OF f(2) b] f(4) f(1)] no_update [OF f(3) b]
    show ?thesis by simp
  qed
  then show ?thesis
    unfolding eq frozen_def by blast
qed

theorem no_update_without_batch_witness:
  "incremental_batch scenario_A = 0
   \<and> filter is_update (trace (snd (realtime scenario_A (all_on_disk 10) []))) = []
   \<and> Predict 9 2 2 \<in> set (trace (snd (realtime scenario_A (all_on_disk 10) [])))
   \<and> (\<exists>k X y. filter is_fit (trace (snd (realtime scenario_A (all_on_disk 10) []))) = [Fit k X y 2])
   \<and> clf (snd (realtime scenario_A (all_on_disk 10) [])) = Some 2"
proof -
  have b: "incremental_batch scenario_A = 0" by code_simp
  have p: "Predict 9 2 2 \<in> set (trace (snd (realtime scenario_A (all_on_disk 10) [])))"
    by code_simp
  have m: "clf (snd (realtime scenario_A (all_on_disk 10) [])) = Some 2" by code_simp
  from no_update_without_batch [OF b, of "all_on_disk 10" "[]"] p m b
  show ?thesis by blast
qed

text \<open>
  C8. As stated the claim fails: with batch size 4 the update made after four
  classified volumes gets one pair, not the last four. The code slices the window
  \<^verbatim>\<open>[idx - incremental_batch, idx)\<close> the way it slices the training set, so the shift
  removes \<open>tr_shift\<close> pairs and the volume just classified is not in it. What holds, in
  a run that processes all its volumes: the updates are made exactly at the indices
  \<open>j > train_count\<close> with \<open>j - train_count\<close> a multiple of the batch size; each is the
  call \<^verbatim>\<open>clf_obj(X, y, clf)\<close> on the classifier that has just classified index \<open>j\<close>; for a
  batch size of at least \<open>tr_shift\<close>, \<open>X\<close> and \<open>y\<close> are the
  \<open>incremental_batch - tr_shift\<close> pairs of the row of index \<open>i\<close> with the label of index
  \<open>i - tr_shift\<close>, for \<open>i\<close> from \<open>j - incremental_batch + tr_shift\<close> to \<open>j - 1\<close>; and
  the classifier the call returns replaces the live one: it makes every prediction of
  the next batch, the indices \<open>j + 1\<close> to \<open>j + incremental_batch\<close>, and \<^verbatim>\<open>clf\<close> holds it
  at the end when the run ends within that batch.
\<close>

theorem update_on_window:
  assumes "completes c w obs"
  shows "(\<forall>j X y m m'. Update j X y m m' \<in> set (trace (snd (realtime c w obs))) \<longrightarrow>
            train_count c < int j \<and> batch_due c j
            \<and> clf_obj c X y (Some m) = Inr m'
            \<and> (\<exists>q. Predict j m q \<in> set (trace (snd (realtime c w obs))))
            \<and> (\<forall>k m'' q. Predict k m'' q \<in> set (trace (snd (realtime c w obs))) \<longrightarrow>
                   j < k \<longrightarrow> int k \<le> int j + incremental_batch c \<longrightarrow> m'' = m')
            \<and> (int (length (labels c)) \<le> int j + incremental_batch c \<longrightarrow>
                   clf (snd (realtime c w obs)) = Some m')
            \<and> (tr_shift \<le> incremental_batch c \<longrightarrow>
                 length X = nat (incremental_batch c - tr_shift)
                 \<and> length y = nat (incremental_batch c - tr_shift)
                 \<and> zip X y = map (\<lambda>i. (tr_data (snd (realtime c w obs)) ! i, labels c ! (i - nat tr_shift)))
                               [nat (int j - incremental_batch c + tr_shift)..<j]))
       \<and> (\<forall>j<length (labels c). train_count c < int j \<longrightarrow> batch_due c j \<longrightarrow>
             (\<exists>X y m m'. Update j X y m m' \<in> set (trace (snd (realtime c w obs)))))"
proof -
  let ?s = "snd (realtime c w obs)"
  note inv = realtime_invariants [OF assms]
  note hand = hand_invD [OF realtime_hand_inv [OF assms]]
  from inv(1) have len: "length (tr_data ?s) = length (labels c)"
    by (simp add: rows_inv_def)
  from realtime_order_inv [of c w obs] have ord: "ordered (trace ?s)"
    by (simp add: order_inv_def)
  from realtime_calls_inv [of c w obs] obtain k0 where ci: "calls_inv c k0 ?s" ..
  have each: "train_count c < int j \<and> batch_due c j
            \<and> clf_obj c X y (Some m) = Inr m'
            \<and> (\<exists>q. Predict j m q \<in> set (trace ?s))
            \<and> (\<forall>k m'' q. Predict k m'' q \<in> set (trace ?s) \<longrightarrow>
                   j < k \<longrightarrow> int k \<le> int j + incremental_batch c \<longrightarrow> m'' = m')
            \<and> (int (length (labels c)) \<le> int j + incremental_batch c \<longrightarrow> clf ?s = Some m')
            \<and> (tr_shift \<le> incremental_batch c \<longrightarrow>
                 length X = nat (incremental_batch c - tr_shift)
                 \<and> length y = nat (incremental_batch c - tr_shift)
                 \<and> zip X y = map (\<lambda>i. (tr_data ?s ! i, labels c ! (i - nat tr_shift)))
                               [nat (int j - incremental_batch c + tr_shift)..<j])"
    if u: "Update j X y m m' \<in> set (trace ?s)" for j X y m m'
  proof -
    from u inv(4) have j: "j < length (labels c)" "train_count c < int j" "batch_due c j"
      and X: "X = py_slice (tr_data ?s) (int j - incremental_batch c + tr_shift) (int j)"
      and y: "y = py_slice (labels c) (int j - incremental_batch c) (int j - tr_shift)"
      unfolding update_inv_def by blast+
    from u ci have call: "clf_obj c X y (Some m) = Inr m'"
      unfolding calls_inv_def by blast
    from update_has_prediction [OF ord u] obtain q where p: "Predict j m q \<in> set (trace ?s)" ..
    have nxt: "\<forall>k m'' q. Predict k m'' q \<in> set (trace ?s) \<longrightarrow>
                   j < k \<longrightarrow> int k \<le> int j + incremental_batch c \<longrightarrow> m'' = m'"
      using hand(6) [OF u] by blast
    have fin: "int (length (labels c)) \<le> int j + incremental_batch c \<longrightarrow> clf ?s = Some m'"
      using hand(7) [OF u] by blast
    from predicted_Nil [of "trace ?s" j m q] p have "predicted (trace ?s) \<noteq> []" by blast
    with inv(2) have T0: "0 \<le> train_count c"
      by (auto simp: fit_inv_def split: if_splits)
    have pairs: "length X = nat (incremental_batch c - tr_shift)
                 \<and> length y = nat (incremental_batch c - tr_shift)
                 \<and> zip X y = map (\<lambda>i. (tr_data ?s ! i, labels c ! (i - nat tr_shift)))
                               [nat (int j - incremental_batch c + tr_shift)..<j]"
      if b3: "tr_shift \<le> incremental_batch c"
    proof -
      have a: "0 \<le> int j - incremental_batch c"
        using batch_due_window [OF j(3,2)] T0 by simp
      have b: "int j - incremental_batch c + tr_shift \<le> int j" using b3 by simp
      have d: "int j \<le> int (length (tr_data ?s))" using j(1) len by simp
      note ap = aligned_pairs [OF a b d len [symmetric]]
      have e: "nat (int j - (int j - incremental_batch c + tr_shift)) = nat (incremental_batch c - tr_shift)"
        by simp
      from ap(2) have 1: "length X = nat (incremental_batch c - tr_shift)"
        unfolding X e .
      from ap(3) have 2: "length y = nat (incremental_batch c - tr_shift)"
        unfolding y e .
      from ap(1) have 3: "zip X y = map (\<lambda>i. (tr_data ?s ! i, labels c ! (i - nat tr_shift)))
                               [nat (int j - incremental_batch c + tr_shift)..<j]"
        unfolding X y by simp
      from 1 2 3 show ?thesis by blast
    qed
    from j(2,3) call p nxt fin pairs show ?thesis by blast
  qed
  from inv(4) have all: "\<forall>j<length (labels c). train_count c < int j \<longrightarrow> batch_due c j \<longrightarrow>
             (\<exists>X y m m'. Update j X y m m' \<in> set (trace ?s))"
    unfolding update_inv_def by (rule conjunct2)
  from each all show ?thesis by blast
qed

theorem update_on_window_witness:
  "completes batches_of_4 (all_on_disk 12) []
   \<and> Update 7 [Some 6] [2] 0 1 \<in> set (trace (snd (realtime batches_of_4 (all_on_disk 12) [])))
   \<and> Predict 8 1 1 \<in> set (trace (snd (realtime batches_of_4 (all_on_disk 12) [])))
   \<and> tr_shift \<le> incremental_batch batches_of_4
   \<and> train_count batches_of_4 < int 7 \<and> batch_due batches_of_4 7
   \<and> clf_obj batches_of_4 [Some 6] [2] (Some 0) = Inr 1
   \<and> length [Some (6::nat)] = nat (incremental_batch batches_of_4 - tr_shift)
   \<and> zip [Some 6] [2] =
       map (\<lambda>i. (tr_data (snd (realtime batches_of_4 (all_on_disk 12) [])) ! i,
                  labels batches_of_4 ! (i - nat tr_shift)))
         [nat (int 7 - incremental_batch batches_of_4 + tr_shift)..<7]
   \<and> 11 < length (labels batches_of_4) \<and> batch_due batches_of_4 11
   \<and> (\<exists>X y m m'. Update 11 X y m m' \<in> set (trace (snd (realtime batches_of_4 (all_on_disk 12) []))))
   \<and> Update 11 [Some 10] [2] 1 2 \<in> set (trace (snd (realtime batches_of_4 (all_on_disk 12) [])))
   \<and> clf (snd (realtime batches_of_4 (all_on_disk 12) [])) = Some 2"
proof -
  have cp: "completes batches_of_4 (all_on_disk 12) []" by code_simp
  have u: "Update 7 [Some 6] [2] 0 1 \<in> set (trace (snd (realtime batches_of_4 (all_on_disk 12) [])))"
    by code_simp
  have u2: "Update 11 [Some 10] [2] 1 2 \<in> set (trace (snd (realtime batches_of_4 (all_on_disk 12) [])))"
    by code_simp
  have p: "Predict 8 1 1 \<in> set (trace (snd (realtime batches_of_4 (all_on_disk 12) [])))"
    by code_simp
  have b: "tr_shift \<le> incremental_batch batches_of_4" by code_simp
  have n: "11 < length (labels batches_of_4)" by code_simp
  have t: "train_count batches_of_4 < int 11" by code_simp
  have d: "batch_due batches_of_4 11" by code_simp
  have e: "int (length (labels batches_of_4)) \<le> int 11 + incremental_batch batches_of_4" by code_simp
  note w = update_on_window [OF cp]
  from w [THEN conjunct1, rule_format, OF u] b
  have 1: "train_count batches_of_4 < int 7 \<and> batch_due batches_of_4 7
   \<and> clf_obj batches_of_4 [Some 6] [2] (Some 0) = Inr 1
   \<and> length [Some (6::nat)] = nat (incremental_batch batches_of_4 - tr_shift)
   \<and> zip [Some 6] [2] =
       map (\<lambda>i. (tr_data (snd (realtime batches_of_4 (all_on_disk 12) [])) ! i,
                  labels batches_of_4 ! (i - nat tr_shift)))
         [nat (int 7 - incremental_batch batches_of_4 + tr_shift)..<7]"
    by blast
  from w [THEN conjunct2, rule_format, OF n t d]
  have 2: "\<exists>X y m m'. Update 11 X y m m' \<in> set (trace (snd (realtime batches_of_4 (all_on_disk 12) [])))" .
  from w [THEN conjunct1, rule_format, OF u2] e
  have 3: "clf (snd (realtime batches_of_4 (all_on_disk 12) [])) = Some 2"
    by blast
  from cp u u2 p b n d 1 2 3 show ?thesis by blast
qed

theorem batches_of_4_counterexample:
  "incremental_batch batches_of_4 = 4
   \<and> train_count batches_of_4 = 3
   \<and> predicted (trace (snd (realtime batches_of_4 (all_on_disk 12) []))) = [4, 5, 6, 7, 8, 9, 10, 11]
   \<and> filter is_update (trace (snd (realtime batches_of_4 (all_on_disk 12) [])))
       = [Update 7 [Some 6] [2] 0 1, Update 11 [Some 10] [2] 1 2]"
  by code_simp

text \<open>
  C9. For the preprocessing as the spec describes it, in real arithmetic. As stated, for
  every valid volume and mask, the claim fails: a mask that selects one element (the
  mask of the spec's Scenario A) gives an output of one element, and a vector of one
  element has standard deviation 0 whatever the element is, not 1. What holds: for a
  volume and a mask of the same shape the output has as many elements as the mask has
  true entries; it is the same for two volumes that hold the same intensities under
  different dtypes, and it is a function of this volume and the mask alone; and when the
  selected elements have a non-zero standard deviation, each output element is the
  selected element minus their mean, divided by their standard deviation, and the output
  has mean 0 and standard deviation 1, so within every tolerance.
\<close>

theorem transform_zscore:
  assumes "length (intensities vol) = length msk"
  shows "length (transform vol msk) = length (filter (\<lambda>b. b) msk)
       \<and> (intensities vol' = intensities vol \<longrightarrow> transform vol' msk = transform vol msk)
       \<and> (np_std (select (intensities vol) msk) \<noteq> 0 \<longrightarrow>
            transform vol msk
              = map (\<lambda>x. (x - np_mean (select (intensities vol) msk)) / np_std (select (intensities vol) msk))
                  (select (intensities vol) msk)
            \<and> np_mean (transform vol msk) = 0 \<and> np_std (transform vol msk) = 1
            \<and> (\<forall>tol\<ge>0. \<bar>np_mean (transform vol msk)\<bar> \<le> tol \<and> \<bar>np_std (transform vol msk) - 1\<bar> \<le> tol))"
proof (rule conjI [OF _ conjI]; (intro impI)?)
  show "length (transform vol msk) = length (filter (\<lambda>b. b) msk)"
    using assms by (rule length_transform)
next
  assume "intensities vol' = intensities vol"
  then show "transform vol' msk = transform vol msk"
    by (simp add: transform_def)
next
  assume sd: "np_std (select (intensities vol) msk) \<noteq> 0"
  let ?xs = "select (intensities vol) msk"
  have t: "transform vol msk = map (\<lambda>x. (x - np_mean ?xs) / np_std ?xs) ?xs"
    by (simp add: transform_def zscore_def)
  have m: "np_mean (transform vol msk) = 0"
    unfolding t by (rule np_mean_zscore)
  have d: "np_std (transform vol msk) = 1"
    unfolding t using sd by (rule np_std_zscore)
  from t m d show "transform vol msk = map (\<lambda>x. (x - np_mean ?xs) / np_std ?xs) ?xs
            \<and> np_mean (transform vol msk) = 0 \<and> np_std (transform vol msk) = 1
            \<and> (\<forall>tol\<ge>0. \<bar>np_mean (transform vol msk)\<bar> \<le> tol \<and> \<bar>np_std (transform vol msk) - 1\<bar> \<le> tol)"
    by simp
qed

theorem transform_zscore_witness:
  "length (intensities (Int_vol [1, 9, 3])) = length [True, False, True]
   \<and> intensities (Float_vol [1, 9, 3]) = intensities (Int_vol [1, 9, 3])
   \<and> np_std (select (intensities (Int_vol [1, 9, 3])) [True, False, True]) \<noteq> 0
   \<and> length (transform (Int_vol [1, 9, 3]) [True, False, True]) = length (filter (\<lambda>b. b) [True, False, True])
   \<and> transform (Float_vol [1, 9, 3]) [True, False, True] = transform (Int_vol [1, 9, 3]) [True, False, True]
   \<and> transform (Int_vol [1, 9, 3]) [True, False, True] = [- 1, 1]
   \<and> np_mean (transform (Int_vol [1, 9, 3]) [True, False, True]) = 0
   \<and> np_std (transform (Int_vol [1, 9, 3]) [True, False, True]) = 1"
proof -
  have i: "intensities (Int_vol [1, 9, 3]) = [1, 9, 3]" by simp
  have l: "length (intensities (Int_vol [1, 9, 3])) = length [True, False, True]" by simp
  have e: "intensities (Float_vol [1, 9, 3]) = intensities (Int_vol [1, 9, 3])" by simp
  have sd: "np_std (select (intensities (Int_vol [1, 9, 3])) [True, False, True]) \<noteq> 0"
    by (simp add: select_139 np_std_13)
  have mu: "np_mean [1, 3] = 2" by (simp add: np_mean_def)
  note w = transform_zscore [OF l, of "Float_vol [1, 9, 3]"]
  from w e have same: "transform (Float_vol [1, 9, 3]) [True, False, True]
      = transform (Int_vol [1, 9, 3]) [True, False, True]"
    by blast
  from w sd have v: "transform (Int_vol [1, 9, 3]) [True, False, True]
      = map (\<lambda>x. (x - np_mean (select (intensities (Int_vol [1, 9, 3])) [True, False, True]))
                    / np_std (select (intensities (Int_vol [1, 9, 3])) [True, False, True]))
          (select (intensities (Int_vol [1, 9, 3])) [True, False, True])"
    and ms: "np_mean (transform (Int_vol [1, 9, 3]) [True, False, True]) = 0"
      "np_std (transform (Int_vol [1, 9, 3]) [True, False, True]) = 1"
    by blast+
  from v have out: "transform (Int_vol [1, 9, 3]) [True, False, True] = [- 1, 1]"
    by (simp add: select_139 np_std_13 mu)
  from w have len: "length (transform (Int_vol [1, 9, 3]) [True, False, True])
      = length (filter (\<lambda>b. b) [True, False, True])"
    by blast
  from l e sd len same out ms show ?thesis by blast
qed

theorem single_voxel_counterexample:
  "length (intensities (Float_vol [5])) = length [True]
   \<and> length (filter (\<lambda>b. b) [True]) = 1
   \<and> length (transform (Float_vol [5]) [True]) = 1
   \<and> np_std (transform (Float_vol [5]) [True]) = 0
   \<and> np_std (transform (Float_vol [5]) [True]) \<noteq> 1"
proof -
  have l: "length (intensities (Float_vol [5])) = length [True]" by simp
  from length_transform [OF l] have n: "length (transform (Float_vol [5]) [True]) = 1" by simp
  then obtain z where "transform (Float_vol [5]) [True] = [z]"
    by (cases "transform (Float_vol [5]) [True]") auto
  then have "np_std (transform (Float_vol [5]) [True]) = 0"
    by (simp only: np_std_single)
  with l n show ?thesis by simp
qed

text \<open>
  C10. \<^verbatim>\<open>accuracy\<close> is assigned only in the branch \<^verbatim>\<open>idx > train_count\<close>. So a run
  returns an accuracy only when some index exceeds the threshold, that is when
  \<open>train_count + 1 < len(labels)\<close>. In a run where no index exceeds the threshold
  \<^verbatim>\<open>accuracy\<close> is never assigned, nor is the classifier when
  \<open>len(labels) \<le> train_count\<close>; if the run processes all its volumes, it stops the
  observer and then fails at \<^verbatim>\<open>return accuracy\<close> with an unbound variable.
\<close>

theorem accuracy_needs_test_volume:
  "(fst (realtime c w obs) = Returns a \<longrightarrow> train_count c + 1 < int (length (labels c)))
   \<and> (int (length (labels c)) \<le> train_count c + 1 \<longrightarrow>
        accuracy (snd (realtime c w obs)) = None
        \<and> (int (length (labels c)) \<le> train_count c \<longrightarrow> clf (snd (realtime c w obs)) = None)
        \<and> (completes c w obs \<longrightarrow>
             fst (realtime c w obs) = Raises (UnboundLocalError ''accuracy'')))"
proof (intro conjI impI)
  assume "fst (realtime c w obs) = Returns a"
  from realtime_Returns [OF this] have cp: "completes c w obs"
    and acc: "accuracy (snd (realtime c w obs)) = Some a" by simp_all
  from realtime_invariants(3) [OF cp] acc
  show "train_count c + 1 < int (length (labels c))"
    by (simp add: score_inv_def)
next
  assume le: "int (length (labels c)) \<le> train_count c + 1"
  from realtime_state [of c w obs] realtime_accuracy [of c w obs] obtain r s where
    rs: "realtime_loop c 0 (init_state c w obs) = (r, s)"
    and eq: "clf (snd (realtime c w obs)) = clf s" "accuracy (snd (realtime c w obs)) = accuracy s"
    by auto
  from never_assigned(1) [OF rs le] eq show none: "accuracy (snd (realtime c w obs)) = None"
    by simp
  {
    assume "int (length (labels c)) \<le> train_count c"
    from never_assigned(2) [OF rs le this] eq show "clf (snd (realtime c w obs)) = None"
      by simp
  }
  {
    assume cp: "completes c w obs"
    from realtime_completes [OF cp] obtain s' where
      s': "snd (realtime c w obs) = s'\<lparr>observers := (observers s')[length obs := Stopped]\<rparr>"
         "fst (realtime c w obs) =
           (case accuracy s' of None \<Rightarrow> Raises (UnboundLocalError ''accuracy'') | Some a \<Rightarrow> Returns a)"
      by blast
    from none s'(1) have "accuracy s' = None" by simp
    with s'(2) show "fst (realtime c w obs) = Raises (UnboundLocalError ''accuracy'')"
      by simp
  }
qed

theorem accuracy_needs_test_volume_witness:
  "fst (realtime scenario_A (all_on_disk 10) []) = Returns (1 / 2)
   \<and> train_count scenario_A + 1 < int (length (labels scenario_A))
   \<and> completes threshold_at_end (all_on_disk 4) []
   \<and> int (length (labels threshold_at_end)) \<le> train_count threshold_at_end
   \<and> fst (realtime threshold_at_end (all_on_disk 4) []) = Raises (UnboundLocalError ''accuracy'')
   \<and> accuracy (snd (realtime threshold_at_end (all_on_disk 4) [])) = None
   \<and> clf (snd (realtime threshold_at_end (all_on_disk 4) [])) = None"
proof -
  have r: "fst (realtime scenario_A (all_on_disk 10) []) = Returns (1 / 2)" by code_simp
  have cp: "completes threshold_at_end (all_on_disk 4) []" by code_simp
  have le: "int (length (labels threshold_at_end)) \<le> train_count threshold_at_end" by code_simp
  from accuracy_needs_test_volume [of scenario_A "all_on_disk 10" "[]" "1 / 2"] r
  have 1: "train_count scenario_A + 1 < int (length (labels scenario_A))" by blast
  from accuracy_needs_test_volume [of threshold_at_end "all_on_disk 4" "[]"] cp le
  have 2: "fst (realtime threshold_at_end (all_on_disk 4) []) = Raises (UnboundLocalError ''accuracy'')
        \<and> accuracy (snd (realtime threshold_at_end (all_on_disk 4) [])) = None
        \<and> clf (snd (realtime threshold_at_end (all_on_disk 4) [])) = None"
    by simp
  from r cp le 1 2 show ?thesis by blast
qed

end
